theory Spec2Isabelle
  imports Main "HOL-Library.Word"
begin

unbundle bit_operations_syntax

section \<open>The bit-stream reader of flirtparser.cpp\<close>

text \<open>
  Bytes are 8-bit words. \<open>ParseState\<close> is the struct of flirtparser.h: the buffer, the
  cursor (\<open>qsizetype\<close>, never negative, so a \<open>nat\<close>), the version (an \<open>int\<close> holding
  the zero-extended version byte) and the two flags.
\<close>

type_synonym byte = "8 word"

record ParseState =
  body :: "byte list"
  pos :: nat
  version :: int
  eof :: bool
  err :: bool

text \<open>\<open>readByte\<close>, lines 37-43.\<close>

definition readByte :: "ParseState \<Rightarrow> byte \<times> ParseState" where
  "readByte st =
     (if eof st \<or> err st \<or> pos st \<ge> length (body st)
      then (0, st\<lparr>eof := (pos st \<ge> length (body st))\<rparr>)
      else (body st ! pos st, st\<lparr>pos := pos st + 1\<rparr>))"

text \<open>\<open>readShortBE\<close>, lines 45-49: \<open>r = readByte; r = (r << 8) | readByte\<close> on \<open>quint16\<close>.\<close>

definition readShortBE :: "ParseState \<Rightarrow> 16 word \<times> ParseState" where
  "readShortBE st =
     (let (a, st1) = readByte st;
          r = (ucast a :: 16 word);
          (b, st2) = readByte st1
      in (push_bit 8 r OR ucast b, st2))"

text \<open>\<open>readWordBE\<close>, lines 51-54.\<close>

definition readWordBE :: "ParseState \<Rightarrow> 32 word \<times> ParseState" where
  "readWordBE st =
     (let (a, st1) = readShortBE st;
          r = (ucast a :: 32 word);
          (b, st2) = readShortBE st1
      in (push_bit 16 r OR ucast b, st2))"

text \<open>\<open>readMultipleBytes\<close>, lines 57-67.\<close>

definition readMultipleBytes :: "ParseState \<Rightarrow> 32 word \<times> ParseState" where
  "readMultipleBytes st =
     (let (a, st1) = readByte st;
          r = (ucast a :: 32 word)
      in if r AND 0x80 \<noteq> 0x80 then (r, st1)
         else if r AND 0xc0 \<noteq> 0xc0 then
           (let (b, st2) = readByte st1 in (push_bit 8 (r AND 0x7f) OR ucast b, st2))
         else if r AND 0xe0 \<noteq> 0xe0 then
           (let (b, st2) = readByte st1;
                r' = push_bit 24 (r AND 0x3f) OR push_bit 16 (ucast b :: 32 word);
                (c, st3) = readShortBE st2
            in (r' OR ucast c, st3))
         else readWordBE st1)"

text \<open>\<open>readMax2Bytes\<close>, lines 70-73.\<close>

definition readMax2Bytes :: "ParseState \<Rightarrow> 16 word \<times> ParseState" where
  "readMax2Bytes st =
     (let (a, st1) = readByte st;
          r = (ucast a :: 16 word)
      in if r AND 0x80 \<noteq> 0 then
           (let (b, st2) = readByte st1 in (push_bit 8 (r AND 0x7f) OR ucast b, st2))
         else (r, st1))"

section \<open>The data model of flirtparser.h\<close>

text \<open>The constants of flirtparser.h.\<close>

definition IDASIG_FEATURE_COMPRESSED :: byte where "IDASIG_FEATURE_COMPRESSED = 0x10"
definition IDASIG_PARSE_MORE_PUBLIC_NAMES :: byte where "IDASIG_PARSE_MORE_PUBLIC_NAMES = 0x01"
definition IDASIG_PARSE_READ_TAIL_BYTES :: byte where "IDASIG_PARSE_READ_TAIL_BYTES = 0x02"
definition IDASIG_PARSE_READ_REFERENCED_FUNCTIONS :: byte where
  "IDASIG_PARSE_READ_REFERENCED_FUNCTIONS = 0x04"
definition IDASIG_PARSE_MORE_MODULES_WITH_SAME_CRC :: byte where
  "IDASIG_PARSE_MORE_MODULES_WITH_SAME_CRC = 0x08"
definition IDASIG_PARSE_MORE_MODULES :: byte where "IDASIG_PARSE_MORE_MODULES = 0x10"
definition IDASIG_FUNCTION_LOCAL :: byte where "IDASIG_FUNCTION_LOCAL = 0x02"
definition IDASIG_FUNCTION_UNRESOLVED_COLLISION :: byte where
  "IDASIG_FUNCTION_UNRESOLVED_COLLISION = 0x08"
definition FLIRT_NAME_MAX :: nat where "FLIRT_NAME_MAX = 1024"

text \<open>
  The structs. A \<open>QByteArray\<close> is a list of bytes, a \<open>QString\<close> a \<open>string\<close>, a
  \<open>QVector\<close> a list. Field names that occur in two structs carry the struct's initials in
  all but one of them; \<open>FlirtModule::length\<close> is \<open>modLength\<close>.
\<close>

record FlirtFunction =
  name :: string
  offset :: "32 word"
  isLocal :: bool
  isCollision :: bool

record FlirtTailByte =
  tb_offset :: "32 word"
  tb_value :: byte

record FlirtRefFunction =
  rf_offset :: "32 word"
  rf_name :: string
  negativeOffset :: bool

record FlirtPatternNode =
  patternBytes :: "byte list"
  variantMask :: "byte list"

record FlirtModule =
  patternPath :: "FlirtPatternNode list"
  crcLength :: "32 word"
  crc16 :: "32 word"
  modLength :: "32 word"
  publicFunctions :: "FlirtFunction list"
  tailBytes :: "FlirtTailByte list"
  referencedFunctions :: "FlirtRefFunction list"

record FlirtHeader =
  hdr_version :: int
  arch :: byte
  fileTypes :: "32 word"
  osTypes :: "16 word"
  appTypes :: "16 word"
  features :: "16 word"
  oldNFunctions :: "16 word"
  hdr_crc16 :: "16 word"
  ctype :: "byte list"
  libraryNameLen :: byte
  ctypesCrc16 :: "16 word"
  nFunctions :: "32 word"
  patternSize :: "16 word"
  unknownV10 :: "16 word"

record FlirtResult =
  success :: bool
  errorMessage :: string
  libraryName :: string
  header :: FlirtHeader
  modules :: "FlirtModule list"

text \<open>The default member initialisers of the structs.\<close>

definition newFlirtFunction :: FlirtFunction where
  "newFlirtFunction = \<lparr>name = [], offset = 0, isLocal = False, isCollision = False\<rparr>"

definition newFlirtPatternNode :: FlirtPatternNode where
  "newFlirtPatternNode = \<lparr>patternBytes = [], variantMask = []\<rparr>"

definition newFlirtModule :: FlirtModule where
  "newFlirtModule =
     \<lparr>patternPath = [], crcLength = 0, crc16 = 0, modLength = 0, publicFunctions = [],
      tailBytes = [], referencedFunctions = []\<rparr>"

definition newFlirtHeader :: FlirtHeader where
  "newFlirtHeader =
     \<lparr>hdr_version = 0, arch = 0, fileTypes = 0, osTypes = 0, appTypes = 0, features = 0,
      oldNFunctions = 0, hdr_crc16 = 0, ctype = [], libraryNameLen = 0, ctypesCrc16 = 0,
      nFunctions = 0, patternSize = 0, unknownV10 = 0\<rparr>"

definition newFlirtResult :: FlirtResult where
  "newFlirtResult =
     \<lparr>success = False, errorMessage = [], libraryName = [], header = newFlirtHeader,
      modules = []\<rparr>"

text \<open>
  \<open>QString::fromLatin1\<close> of Qt 6: one character per byte, the byte's value the
  character's code.
\<close>

definition fromLatin1 :: "byte list \<Rightarrow> string" where
  "fromLatin1 bs = map (\<lambda>b. char_of (unat b)) bs"

section \<open>Hex rendering\<close>

text \<open>
  \<open>QString("%1").arg(b, 2, 16, QChar('0')).toUpper()\<close> for a \<open>quint8\<close>: the value in
  base 16, padded with \<open>0\<close> to two digits, in upper case.
\<close>

definition hexDigit :: "nat \<Rightarrow> char" where
  "hexDigit n = ''0123456789ABCDEF'' ! (n mod 16)"

definition hexByte :: "byte \<Rightarrow> string" where
  "hexByte b = [hexDigit (unat b div 16), hexDigit (unat b mod 16)]"

text \<open>
  \<open>FlirtPatternNode::toHexString\<close>, lines 75-85: the loop over
  \<open>i < patternBytes.size()\<close>, from index \<open>i\<close> on.
\<close>

function toHexStringFrom :: "FlirtPatternNode \<Rightarrow> nat \<Rightarrow> string \<Rightarrow> string" where
  "toHexStringFrom n i out =
     (if i < length (patternBytes n) then
        (if i < length (variantMask n) \<and> variantMask n ! i \<noteq> 0
         then toHexStringFrom n (i + 1) (out @ ''..'')
         else toHexStringFrom n (i + 1) (out @ hexByte (patternBytes n ! i)))
      else out)"
  by pat_completeness auto
termination
  by (relation "measure (\<lambda>(n, i, out). length (patternBytes n) - i)") auto

declare toHexStringFrom.simps [simp del]

definition toHexString :: "FlirtPatternNode \<Rightarrow> string" where
  "toHexString n = toHexStringFrom n 0 []"

text \<open>\<open>FlirtModule::patternPathHex\<close>, lines 87-94.\<close>

fun patternPathHexFrom :: "FlirtPatternNode list \<Rightarrow> string \<Rightarrow> string" where
  "patternPathHexFrom [] out = out"
| "patternPathHexFrom (n # ns) out =
     patternPathHexFrom ns ((if out \<noteq> [] then out @ '' '' else out) @ toHexString n)"

definition patternPathHex :: "FlirtModule \<Rightarrow> string" where
  "patternPathHex m = patternPathHexFrom (patternPath m) []"

section \<open>The node decoder\<close>

text \<open>\<open>readNodeLength\<close>, lines 223-227. \<open>None\<close> is the return value \<open>false\<close>.\<close>

definition readNodeLength :: "ParseState \<Rightarrow> (byte \<times> ParseState) option" where
  "readNodeLength st = (if eof st \<or> err st then None else Some (readByte st))"

text \<open>
  \<open>readNodeVariantMask\<close>, lines 229-240. In the 64-bit branch the two reads are taken
  left to right.
\<close>

definition readNodeVariantMask :: "ParseState \<Rightarrow> byte \<Rightarrow> (64 word \<times> ParseState) option" where
  "readNodeVariantMask st nodeLen =
     (if nodeLen < 16 then
        (let (m, st1) = readMax2Bytes st
         in if \<not> eof st1 \<and> \<not> err st1 then Some (ucast m, st1) else None)
      else if nodeLen \<le> 32 then
        (let (m, st1) = readMultipleBytes st
         in if \<not> eof st1 \<and> \<not> err st1 then Some (ucast m, st1) else None)
      else if nodeLen \<le> 64 then
        (let (hi, st1) = readMultipleBytes st;
             (lo, st2) = readMultipleBytes st1
         in if \<not> eof st2 \<and> \<not> err st2
            then Some (push_bit 32 (ucast hi :: 64 word) OR ucast lo, st2) else None)
      else None)"

text \<open>
  \<open>readNodeBytes\<close>, lines 242-257. The loop of lines 247-255 at index \<open>i\<close>, with the
  current \<open>bit\<close> (here \<open>bitm\<close>); the arrays were resized to \<open>nodeLen\<close> before and
  are written by index.
\<close>

function readNodeBytesLoop ::
  "nat \<Rightarrow> nat \<Rightarrow> 64 word \<Rightarrow> 64 word \<Rightarrow> ParseState \<Rightarrow> FlirtPatternNode
     \<Rightarrow> (FlirtPatternNode \<times> ParseState) option" where
  "readNodeBytesLoop i nodeLen bitm vmask st nodeOut =
     (if i < nodeLen then
        (let nodeOut1 = nodeOut\<lparr>variantMask :=
               (variantMask nodeOut)[i := (if vmask AND bitm \<noteq> 0 then 1 else 0)]\<rparr>
         in if vmask AND bitm \<noteq> 0 then
              readNodeBytesLoop (i + 1) nodeLen (drop_bit 1 bitm) vmask st
                (nodeOut1\<lparr>patternBytes := (patternBytes nodeOut1)[i := 0]\<rparr>)
            else if eof st \<or> err st then None
            else (let (b, st1) = readByte st
                  in readNodeBytesLoop (i + 1) nodeLen (drop_bit 1 bitm) vmask st1
                       (nodeOut1\<lparr>patternBytes := (patternBytes nodeOut1)[i := b]\<rparr>)))
      else Some (nodeOut, st))"
  by pat_completeness auto
termination
  by (relation "measure (\<lambda>(i, nodeLen, bitm, vmask, st, nodeOut). nodeLen - i)") auto

declare readNodeBytesLoop.simps [simp del]

text \<open>
  \<open>resize\<close> on the fresh node gives both arrays \<open>nodeLen\<close> entries (their content is
  not initialised by Qt; every entry is written before \<open>true\<close> is returned; here they
  start as 0).
\<close>

definition readNodeBytes ::
  "ParseState \<Rightarrow> byte \<Rightarrow> 64 word \<Rightarrow> (FlirtPatternNode \<times> ParseState) option" where
  "readNodeBytes st nodeLen vmask =
     (if nodeLen > 63 \<or> nodeLen \<le> 0 then None
      else readNodeBytesLoop 0 (unat nodeLen) (push_bit (unat nodeLen - 1) 1) vmask st
             \<lparr>patternBytes = replicate (unat nodeLen) 0,
              variantMask = replicate (unat nodeLen) 0\<rparr>)"

section \<open>The module decoder\<close>

text \<open>
  The read written out at lines 262-266, 299-303, 317-321 and 357-361:
  \<open>readMultipleBytes\<close> when \<open>st.version >= 9\<close>, \<open>readMax2Bytes\<close> otherwise, the
  result widened to \<open>quint32\<close>.
\<close>

definition readVersioned :: "ParseState \<Rightarrow> 32 word \<times> ParseState" where
  "readVersioned st =
     (if version st \<ge> 9 then readMultipleBytes st
      else (let (r, st1) = readMax2Bytes st in (ucast r, st1)))"

text \<open>The name loop of \<open>readModulePublicFunctions\<close>, lines 282-286.\<close>

function readNameLoop ::
  "ParseState \<Rightarrow> byte \<Rightarrow> byte list \<Rightarrow> (byte list \<times> byte \<times> ParseState) option" where
  "readNameLoop st currentByte nameBytes =
     (if currentByte \<ge> 0x20 \<and> length nameBytes < FLIRT_NAME_MAX then
        (let nameBytes1 = nameBytes @ [currentByte];
             (c, st1) = readByte st
         in if eof st1 \<or> err st1 then None else readNameLoop st1 c nameBytes1)
      else Some (nameBytes, currentByte, st))"
  by pat_completeness auto
termination
  by (relation "measure (\<lambda>(st, c, nameBytes). FLIRT_NAME_MAX - length nameBytes)") auto

declare readNameLoop.simps [simp del]

text \<open>
  Lines 281-288: the name of the function \<open>f\<close> from its first byte \<open>currentByte\<close>, and
  the byte the loop stops at, which becomes \<open>flags\<close>.
\<close>

definition readNameAndFlags ::
  "ParseState \<Rightarrow> byte \<Rightarrow> FlirtFunction \<Rightarrow> (FlirtFunction \<times> byte \<times> ParseState) option" where
  "readNameAndFlags st currentByte f =
     (case readNameLoop st currentByte [] of
        None \<Rightarrow> None
      | Some (nameBytes, flags, st1) \<Rightarrow> Some (f\<lparr>name := fromLatin1 nameBytes\<rparr>, flags, st1))"

text \<open>
  One round of the \<open>do\<close> loop of \<open>readModulePublicFunctions\<close>, lines 262-288, from the
  running \<open>offset\<close> (here \<open>off\<close>): the function read, and \<open>flags\<close>. The new running
  offset is the function's.
\<close>

definition readPublicFunction ::
  "ParseState \<Rightarrow> 32 word \<Rightarrow> (FlirtFunction \<times> byte \<times> ParseState) option" where
  "readPublicFunction st off =
     (let (d, st1) = readVersioned st;
          off1 = off + d
      in if eof st1 \<or> err st1 then None
         else
           (let f = newFlirtFunction\<lparr>offset := off1\<rparr>;
                (currentByte, st2) = readByte st1
            in if eof st2 \<or> err st2 then None
               else if currentByte < 0x20 then
                 (let f1 = (if currentByte AND IDASIG_FUNCTION_LOCAL \<noteq> 0
                            then f\<lparr>isLocal := True\<rparr> else f);
                      f2 = (if currentByte AND IDASIG_FUNCTION_UNRESOLVED_COLLISION \<noteq> 0
                            then f1\<lparr>isCollision := True\<rparr> else f1);
                      (currentByte1, st3) = readByte st2
                  in if eof st3 \<or> err st3 then None
                     else readNameAndFlags st3 currentByte1 f2)
               else readNameAndFlags st2 currentByte f))"

subsection \<open>What a read does to the cursor\<close>

text \<open>
  Two relations between the state before and after a piece of the decoder, for the
  termination of its loops: the read keeps the buffer, the version and \<open>err\<close> and
  does not move the cursor back; the read has taken at least one byte.
\<close>

definition advances :: "ParseState \<Rightarrow> ParseState \<Rightarrow> bool" where
  "advances st st' \<longleftrightarrow>
     body st' = body st \<and> version st' = version st \<and> err st' = err st \<and> pos st \<le> pos st'"

lemma advances_refl [simp]: "advances st st"
  by (simp add: advances_def)

lemma advances_trans: "advances a b \<Longrightarrow> advances b c \<Longrightarrow> advances a c"
  by (auto simp: advances_def)

lemma readByte_advances: "readByte st = (b, st') \<Longrightarrow> advances st st'"
  by (auto simp: readByte_def advances_def split: if_splits)

lemma readShortBE_advances: "readShortBE st = (r, st') \<Longrightarrow> advances st st'"
  by (auto simp: readShortBE_def Let_def split: prod.splits
      dest!: readByte_advances intro: advances_trans)

lemma readWordBE_advances: "readWordBE st = (r, st') \<Longrightarrow> advances st st'"
  by (auto simp: readWordBE_def Let_def split: prod.splits
      dest!: readShortBE_advances intro: advances_trans)

lemma readMax2Bytes_advances: "readMax2Bytes st = (r, st') \<Longrightarrow> advances st st'"
  by (auto simp: readMax2Bytes_def Let_def split: prod.splits if_splits
      dest!: readByte_advances intro: advances_trans)

lemma readMultipleBytes_advances: "readMultipleBytes st = (r, st') \<Longrightarrow> advances st st'"
  by (auto simp: readMultipleBytes_def Let_def split: prod.splits if_splits
      dest!: readByte_advances readShortBE_advances readWordBE_advances intro: advances_trans)

lemma readVersioned_advances: "readVersioned st = (r, st') \<Longrightarrow> advances st st'"
  by (auto simp: readVersioned_def Let_def split: prod.splits if_splits
      dest!: readMax2Bytes_advances readMultipleBytes_advances)

lemma readByte_progress:
  "readByte st = (b, st') \<Longrightarrow> \<not> eof st \<Longrightarrow> \<not> err st \<Longrightarrow> \<not> eof st' \<Longrightarrow>
     pos st' = Suc (pos st) \<and> pos st < length (body st)"
  by (auto simp: readByte_def split: if_splits)

lemma readNameLoop_advances:
  "readNameLoop st c nb = Some (nb', c', st') \<Longrightarrow> advances st st'"
proof (induction st c nb rule: readNameLoop.induct)
  case (1 st c nb)
  show ?case
  proof (cases "c \<ge> 0x20 \<and> length nb < FLIRT_NAME_MAX")
    case False
    with "1.prems" show ?thesis by (simp add: readNameLoop.simps)
  next
    case True
    obtain d st1 where r: "readByte st = (d, st1)" by (cases "readByte st")
    from "1.prems" True r have ok: "\<not> (eof st1 \<or> err st1)"
      and rec: "readNameLoop st1 d (nb @ [c]) = Some (nb', c', st')"
      by (auto simp: readNameLoop.simps [of st c nb] split: if_splits)
    from "1.IH" [OF True refl refl r [symmetric] ok rec] readByte_advances [OF r]
    show ?thesis by (rule advances_trans [rotated])
  qed
qed

definition consumed :: "ParseState \<Rightarrow> ParseState \<Rightarrow> bool" where
  "consumed st st' \<longleftrightarrow> advances st st' \<and> pos st < pos st' \<and> pos st < length (body st)"

lemma consumed_advances: "consumed a b \<Longrightarrow> advances a b"
  by (simp add: consumed_def)

lemma advances_consumed: "advances a b \<Longrightarrow> consumed b c \<Longrightarrow> consumed a c"
  by (auto simp: advances_def consumed_def)

lemma consumed_advances_trans: "consumed a b \<Longrightarrow> advances b c \<Longrightarrow> consumed a c"
  by (auto simp: advances_def consumed_def)

lemma consumed_measure:
  "consumed st st' \<Longrightarrow> length (body st') - pos st' < length (body st) - pos st"
  by (auto simp: advances_def consumed_def)

lemma readByte_consumed:
  "readByte st = (b, st') \<Longrightarrow> \<not> eof st \<Longrightarrow> \<not> err st \<Longrightarrow> \<not> eof st' \<Longrightarrow> consumed st st'"
  by (auto simp: readByte_def consumed_def advances_def split: if_splits)

lemma readNameAndFlags_advances:
  "readNameAndFlags st c f = Some (f', fl, st') \<Longrightarrow> advances st st'"
  by (auto simp: readNameAndFlags_def split: option.splits dest: readNameLoop_advances)

lemma readPublicFunction_consumed:
  assumes "readPublicFunction st off = Some (f, fl, st')"
  shows "consumed st st'"
proof -
  obtain d st1 where d: "readVersioned st = (d, st1)" by (cases "readVersioned st")
  obtain c st2 where c: "readByte st1 = (c, st2)" by (cases "readByte st1")
  obtain c1 st3 where c1: "readByte st2 = (c1, st3)" by (cases "readByte st2")
  from assms d have ok1: "\<not> eof st1" "\<not> err st1"
    by (auto simp: readPublicFunction_def Let_def split: if_splits)
  from assms d c ok1 have ok2: "\<not> eof st2" "\<not> err st2"
    by (auto simp: readPublicFunction_def Let_def split: if_splits)
  have a1: "advances st st1" using d by (rule readVersioned_advances)
  have c2: "consumed st1 st2" using c ok1 ok2(1) by (rule readByte_consumed)
  have "advances st2 st'"
  proof (cases "c < 0x20")
    case True
    with assms d c c1 ok1 ok2 obtain f2 where "readNameAndFlags st3 c1 f2 = Some (f, fl, st')"
      by (auto simp: readPublicFunction_def Let_def split: if_splits)
    then have "advances st3 st'" by (rule readNameAndFlags_advances)
    with readByte_advances [OF c1] show ?thesis by (rule advances_trans)
  next
    case False
    with assms d c ok1 ok2 obtain f2 where "readNameAndFlags st2 c f2 = Some (f, fl, st')"
      by (auto simp: readPublicFunction_def Let_def split: if_splits)
    then show ?thesis by (rule readNameAndFlags_advances)
  qed
  with c2 have "consumed st1 st'" by (rule consumed_advances_trans)
  with a1 show ?thesis by (rule advances_consumed)
qed

text \<open>
  \<open>readModulePublicFunctions\<close>, lines 259-292: the \<open>do\<close> loop from the running offset
  \<open>off\<close>; it goes on while \<open>flags & IDASIG_PARSE_MORE_PUBLIC_NAMES\<close>.
\<close>

function readModulePublicFunctionsLoop ::
  "ParseState \<Rightarrow> FlirtModule \<Rightarrow> 32 word \<Rightarrow> (FlirtModule \<times> byte \<times> ParseState) option" where
  "readModulePublicFunctionsLoop st md off =
     (case readPublicFunction st off of
        None \<Rightarrow> None
      | Some (f, flags, st1) \<Rightarrow>
          (let md1 = md\<lparr>publicFunctions := publicFunctions md @ [f]\<rparr>
           in if flags AND IDASIG_PARSE_MORE_PUBLIC_NAMES \<noteq> 0
              then readModulePublicFunctionsLoop st1 md1 (offset f)
              else Some (md1, flags, st1)))"
  by pat_completeness auto
termination
  by (relation "measure (\<lambda>(st, md, off). length (body st) - pos st)")
    (auto dest!: readPublicFunction_consumed consumed_measure)

declare readModulePublicFunctionsLoop.simps [simp del]

definition readModulePublicFunctions ::
  "ParseState \<Rightarrow> FlirtModule \<Rightarrow> (FlirtModule \<times> byte \<times> ParseState) option" where
  "readModulePublicFunctions st md = readModulePublicFunctionsLoop st md 0"

text \<open>
  \<open>readModuleTailBytes\<close>, lines 294-310. The \<open>for\<close> loop runs \<open>count\<close> times; the
  first argument of the loop function is the number of rounds left.
\<close>

fun readModuleTailBytesLoop ::
  "nat \<Rightarrow> ParseState \<Rightarrow> FlirtModule \<Rightarrow> (FlirtModule \<times> ParseState) option" where
  "readModuleTailBytesLoop 0 st md = Some (md, st)"
| "readModuleTailBytesLoop (Suc n) st md =
     (let (off, st1) = readVersioned st
      in if eof st1 \<or> err st1 then None
         else
           (let (v, st2) = readByte st1
            in if eof st2 \<or> err st2 then None
               else readModuleTailBytesLoop n st2
                      (md\<lparr>tailBytes := tailBytes md @ [\<lparr>tb_offset = off, tb_value = v\<rparr>]\<rparr>)))"

definition readCount :: "ParseState \<Rightarrow> int \<times> ParseState" where
  "readCount st =
     (if version st \<ge> 8 then (let (c, st1) = readByte st in (uint c, st1)) else (1, st))"

definition readModuleTailBytes ::
  "ParseState \<Rightarrow> FlirtModule \<Rightarrow> (FlirtModule \<times> ParseState) option" where
  "readModuleTailBytes st md =
     (let (count, st1) = readCount st
      in if eof st1 \<or> err st1 then None else readModuleTailBytesLoop (nat count) st1 md)"

text \<open>
  \<open>readModuleReferencedFunctions\<close>, lines 312-343; first the loop of lines 331-334
  that reads the \<open>nameLen\<close> bytes of a name.
\<close>

fun readRefNameLoop ::
  "nat \<Rightarrow> ParseState \<Rightarrow> byte list \<Rightarrow> (byte list \<times> ParseState) option" where
  "readRefNameLoop 0 st nameBytes = Some (nameBytes, st)"
| "readRefNameLoop (Suc n) st nameBytes =
     (let (b, st1) = readByte st;
          nameBytes1 = nameBytes @ [b]
      in if eof st1 \<or> err st1 then None else readRefNameLoop n st1 nameBytes1)"

text \<open>Lines 323-328: the length of the name.\<close>

definition readRefNameLen :: "ParseState \<Rightarrow> (32 word \<times> ParseState) option" where
  "readRefNameLen st =
     (let (b, st1) = readByte st;
          nameLen = (ucast b :: 32 word)
      in if eof st1 \<or> err st1 then None
         else if nameLen = 0 then
           (let (m, st2) = readMultipleBytes st1
            in if eof st2 \<or> err st2 then None else Some (m, st2))
         else Some (nameLen, st1))"

text \<open>Lines 335-339: the trailing zero byte of a name.\<close>

definition finishRefFunction :: "32 word \<Rightarrow> byte list \<Rightarrow> FlirtRefFunction" where
  "finishRefFunction off nameBytes =
     (let rf = \<lparr>rf_offset = off, rf_name = [], negativeOffset = False\<rparr>
      in if nameBytes \<noteq> [] \<and> last nameBytes = 0
         then rf\<lparr>negativeOffset := True, rf_name := fromLatin1 (butlast nameBytes)\<rparr>
         else rf\<lparr>rf_name := fromLatin1 nameBytes\<rparr>)"

fun readModuleReferencedFunctionsLoop ::
  "nat \<Rightarrow> ParseState \<Rightarrow> FlirtModule \<Rightarrow> (FlirtModule \<times> ParseState) option" where
  "readModuleReferencedFunctionsLoop 0 st md = Some (md, st)"
| "readModuleReferencedFunctionsLoop (Suc n) st md =
     (let (off, st1) = readVersioned st
      in if eof st1 \<or> err st1 then None
         else
           (case readRefNameLen st1 of
              None \<Rightarrow> None
            | Some (nameLen, st2) \<Rightarrow>
                if nameLen \<ge> of_nat FLIRT_NAME_MAX then None
                else
                  (case readRefNameLoop (unat nameLen) st2 [] of
                     None \<Rightarrow> None
                   | Some (nameBytes, st3) \<Rightarrow>
                       readModuleReferencedFunctionsLoop n st3
                         (md\<lparr>referencedFunctions :=
                              referencedFunctions md @ [finishRefFunction off nameBytes]\<rparr>))))"

definition readModuleReferencedFunctions ::
  "ParseState \<Rightarrow> FlirtModule \<Rightarrow> (FlirtModule \<times> ParseState) option" where
  "readModuleReferencedFunctions st md =
     (let (count, st1) = readCount st
      in if eof st1 \<or> err st1 then None
         else readModuleReferencedFunctionsLoop (nat count) st1 md)"

text \<open>
  One round of the inner \<open>do\<close> loop of \<open>parseLeaf\<close>, lines 353-370: the module read
  under the CRC block \<open>(crcLength, crc16)\<close>, and the \<open>flags\<close> its function list ended
  with. \<open>None\<close> is \<open>return false\<close>.
\<close>

definition parseModule ::
  "ParseState \<Rightarrow> FlirtPatternNode list \<Rightarrow> byte \<Rightarrow> 16 word
     \<Rightarrow> (FlirtModule \<times> byte \<times> ParseState) option" where
  "parseModule st path crcLen crc =
     (let md = newFlirtModule\<lparr>patternPath := path, crcLength := ucast crcLen,
                 crc16 := ucast crc\<rparr>;
          (len, st1) = readVersioned st;
          md1 = md\<lparr>modLength := len\<rparr>
      in if eof st1 \<or> err st1 then None
         else
           (case readModulePublicFunctions st1 md1 of
              None \<Rightarrow> None
            | Some (md2, flags, st2) \<Rightarrow>
                (case (if flags AND IDASIG_PARSE_READ_TAIL_BYTES \<noteq> 0
                       then readModuleTailBytes st2 md2 else Some (md2, st2)) of
                   None \<Rightarrow> None
                 | Some (md3, st3) \<Rightarrow>
                     (case (if flags AND IDASIG_PARSE_READ_REFERENCED_FUNCTIONS \<noteq> 0
                            then readModuleReferencedFunctions st3 md3 else Some (md3, st3)) of
                        None \<Rightarrow> None
                      | Some (md4, st4) \<Rightarrow> Some (md4, flags, st4)))))"

lemma readModulePublicFunctionsLoop_consumed:
  "readModulePublicFunctionsLoop st md off = Some (md', fl, st') \<Longrightarrow> consumed st st'"
proof (induction st md off rule: readModulePublicFunctionsLoop.induct)
  case (1 st md off)
  from "1.prems" obtain f flags st1 where r: "readPublicFunction st off = Some (f, flags, st1)"
    by (auto simp: readModulePublicFunctionsLoop.simps [of st md off] split: option.splits)
  have c: "consumed st st1" using r by (rule readPublicFunction_consumed)
  show ?case
  proof (cases "flags AND IDASIG_PARSE_MORE_PUBLIC_NAMES \<noteq> 0")
    case True
    with "1.prems" r have
      "readModulePublicFunctionsLoop st1 (md\<lparr>publicFunctions := publicFunctions md @ [f]\<rparr>)
         (offset f) = Some (md', fl, st')"
      by (simp add: readModulePublicFunctionsLoop.simps [of st md off])
    from "1.IH" [OF r refl refl refl True this] c show ?thesis
      by (blast intro: consumed_advances_trans consumed_advances)
  next
    case False
    with "1.prems" r c show ?thesis
      by (simp add: readModulePublicFunctionsLoop.simps [of st md off])
  qed
qed

lemma readModuleTailBytesLoop_advances:
  "readModuleTailBytesLoop n st md = Some (md', st') \<Longrightarrow> advances st st'"
proof (induction n arbitrary: st md)
  case 0
  then show ?case by simp
next
  case (Suc n)
  obtain off st1 where a: "readVersioned st = (off, st1)" by (cases "readVersioned st")
  obtain v st2 where b: "readByte st1 = (v, st2)" by (cases "readByte st1")
  from Suc.prems a b obtain md1 where "readModuleTailBytesLoop n st2 md1 = Some (md', st')"
    by (auto simp: Let_def split: if_splits)
  then have "advances st2 st'" by (rule Suc.IH)
  with readVersioned_advances [OF a] readByte_advances [OF b] show ?case
    by (blast intro: advances_trans)
qed

lemma readCount_advances: "readCount st = (c, st') \<Longrightarrow> advances st st'"
  by (auto simp: readCount_def Let_def split: if_splits prod.splits dest: readByte_advances)

lemma readModuleTailBytes_advances:
  "readModuleTailBytes st md = Some (md', st') \<Longrightarrow> advances st st'"
  by (auto simp: readModuleTailBytes_def Let_def split: if_splits prod.splits
      dest!: readCount_advances readModuleTailBytesLoop_advances intro: advances_trans)

lemma readRefNameLoop_advances:
  "readRefNameLoop n st nb = Some (nb', st') \<Longrightarrow> advances st st'"
proof (induction n arbitrary: st nb)
  case 0
  then show ?case by simp
next
  case (Suc n)
  obtain b st1 where b: "readByte st = (b, st1)" by (cases "readByte st")
  from Suc.prems b have "readRefNameLoop n st1 (nb @ [b]) = Some (nb', st')"
    by (auto simp: Let_def split: if_splits)
  then have "advances st1 st'" by (rule Suc.IH)
  with readByte_advances [OF b] show ?case by (rule advances_trans)
qed

lemma readRefNameLen_advances: "readRefNameLen st = Some (n, st') \<Longrightarrow> advances st st'"
  by (auto simp: readRefNameLen_def Let_def split: if_splits prod.splits
      dest!: readByte_advances readMultipleBytes_advances intro: advances_trans)

lemma readModuleReferencedFunctionsLoop_advances:
  "readModuleReferencedFunctionsLoop n st md = Some (md', st') \<Longrightarrow> advances st st'"
proof (induction n arbitrary: st md)
  case 0
  then show ?case by simp
next
  case (Suc n)
  obtain off st1 where a: "readVersioned st = (off, st1)" by (cases "readVersioned st")
  from Suc.prems a obtain nameLen st2 where b: "readRefNameLen st1 = Some (nameLen, st2)"
    by (auto simp: Let_def split: if_splits option.splits)
  from Suc.prems a b obtain nameBytes st3 where
    c: "readRefNameLoop (unat nameLen) st2 [] = Some (nameBytes, st3)"
    by (auto simp: Let_def split: if_splits option.splits)
  from Suc.prems a b c obtain md1 where
    "readModuleReferencedFunctionsLoop n st3 md1 = Some (md', st')"
    by (auto simp: Let_def split: if_splits)
  then have "advances st3 st'" by (rule Suc.IH)
  with readVersioned_advances [OF a] readRefNameLen_advances [OF b]
    readRefNameLoop_advances [OF c]
  show ?case by (blast intro: advances_trans)
qed

lemma readModuleReferencedFunctions_advances:
  "readModuleReferencedFunctions st md = Some (md', st') \<Longrightarrow> advances st st'"
  by (auto simp: readModuleReferencedFunctions_def Let_def split: if_splits prod.splits
      dest!: readCount_advances readModuleReferencedFunctionsLoop_advances
      intro: advances_trans)

lemma parseModule_consumed:
  assumes "parseModule st path cl crc = Some (md, fl, st')"
  shows "consumed st st'"
proof -
  obtain len st1 where a: "readVersioned st = (len, st1)" by (cases "readVersioned st")
  let ?md1 = "newFlirtModule\<lparr>patternPath := path, crcLength := ucast cl, crc16 := ucast crc,
                modLength := len\<rparr>"
  from assms a obtain md2 fl2 st2 where
    b: "readModulePublicFunctions st1 ?md1 = Some (md2, fl2, st2)"
    by (auto simp: parseModule_def Let_def split: if_splits option.splits)
  from assms a b have fl: "fl2 = fl"
    by (auto simp: parseModule_def Let_def split: if_splits option.splits)
  from assms a b fl obtain md3 st3 where
    c: "(if fl AND IDASIG_PARSE_READ_TAIL_BYTES \<noteq> 0
         then readModuleTailBytes st2 md2 else Some (md2, st2)) = Some (md3, st3)"
    by (auto simp: parseModule_def Let_def split: if_splits option.splits)
  from assms a b c fl have
    d: "(if fl AND IDASIG_PARSE_READ_REFERENCED_FUNCTIONS \<noteq> 0
         then readModuleReferencedFunctions st3 md3 else Some (md3, st3)) = Some (md, st')"
    by (auto simp: parseModule_def Let_def split: if_splits option.splits)
  have 1: "advances st st1" using a by (rule readVersioned_advances)
  have 2: "consumed st1 st2"
    using b by (auto simp: readModulePublicFunctions_def
        dest: readModulePublicFunctionsLoop_consumed)
  have 3: "advances st2 st3"
    using c by (auto split: if_splits dest: readModuleTailBytes_advances)
  have 4: "advances st3 st'"
    using d by (auto split: if_splits dest: readModuleReferencedFunctions_advances)
  from 1 2 3 4 show ?thesis
    by (blast intro: advances_consumed consumed_advances_trans)
qed

text \<open>
  The inner \<open>do\<close> loop of \<open>parseLeaf\<close>, lines 352-372. The result is \<open>modulesOut\<close>
  and, when no read failed, the last \<open>flags\<close> and the state.
\<close>

function parseLeafModules ::
  "ParseState \<Rightarrow> FlirtPatternNode list \<Rightarrow> byte \<Rightarrow> 16 word \<Rightarrow> FlirtModule list
     \<Rightarrow> (byte \<times> ParseState) option \<times> FlirtModule list" where
  "parseLeafModules st path crcLen crc modulesOut =
     (case parseModule st path crcLen crc of
        None \<Rightarrow> (None, modulesOut)
      | Some (md, flags, st1) \<Rightarrow>
          (let modulesOut1 = modulesOut @ [md]
           in if flags AND IDASIG_PARSE_MORE_MODULES_WITH_SAME_CRC \<noteq> 0
              then parseLeafModules st1 path crcLen crc modulesOut1
              else (Some (flags, st1), modulesOut1)))"
  by pat_completeness auto
termination
  by (relation "measure (\<lambda>(st, path, crcLen, crc, out). length (body st) - pos st)")
    (auto dest!: parseModule_consumed consumed_measure)

declare parseLeafModules.simps [simp del]

lemma parseLeafModules_consumed:
  "parseLeafModules st path cl crc out = (Some (fl, st'), out') \<Longrightarrow> consumed st st'"
proof (induction st path cl crc out rule: parseLeafModules.induct)
  case (1 st path cl crc out)
  from "1.prems" obtain md flags st1 where r: "parseModule st path cl crc = Some (md, flags, st1)"
    by (auto simp: parseLeafModules.simps [of st path cl crc out] split: option.splits)
  have c: "consumed st st1" using r by (rule parseModule_consumed)
  show ?case
  proof (cases "flags AND IDASIG_PARSE_MORE_MODULES_WITH_SAME_CRC \<noteq> 0")
    case True
    with "1.prems" r have
      "parseLeafModules st1 path cl crc (out @ [md]) = (Some (fl, st'), out')"
      by (simp add: parseLeafModules.simps [of st path cl crc out])
    from "1.IH" [OF r refl refl refl True this] c show ?thesis
      by (blast intro: consumed_advances_trans consumed_advances)
  next
    case False
    with "1.prems" r c show ?thesis
      by (simp add: parseLeafModules.simps [of st path cl crc out])
  qed
qed

lemma parseLeaf_round:
  assumes "(crcLen, st1) = readByte st" and "(crc, st2) = readShortBE st1"
    and "(Some (fl, st3), out1) = parseLeafModules st2 path crcLen crc out"
  shows "consumed st st3"
proof -
  have "advances st st1" using assms(1) by (auto dest: readByte_advances [OF sym])
  moreover have "advances st1 st2" using assms(2) by (auto dest: readShortBE_advances [OF sym])
  moreover have "consumed st2 st3"
    using assms(3) by (auto dest: parseLeafModules_consumed [OF sym])
  ultimately show ?thesis by (blast intro: advances_consumed advances_trans)
qed

text \<open>\<open>parseLeaf\<close>, lines 345-375: the outer \<open>do\<close> loop, one CRC block a round.\<close>

function parseLeaf ::
  "ParseState \<Rightarrow> FlirtPatternNode list \<Rightarrow> FlirtModule list
     \<Rightarrow> ParseState option \<times> FlirtModule list" where
  "parseLeaf st path modulesOut =
     (let (crcLen, st1) = readByte st
      in if eof st1 \<or> err st1 then (None, modulesOut)
         else
           (let (crc, st2) = readShortBE st1
            in if eof st2 \<or> err st2 then (None, modulesOut)
               else
                 (case parseLeafModules st2 path crcLen crc modulesOut of
                    (None, modulesOut1) \<Rightarrow> (None, modulesOut1)
                  | (Some (flags, st3), modulesOut1) \<Rightarrow>
                      if flags AND IDASIG_PARSE_MORE_MODULES \<noteq> 0
                      then parseLeaf st3 path modulesOut1
                      else (Some st3, modulesOut1))))"
  by pat_completeness auto
termination
proof (relation "measure (\<lambda>(st, path, out). length (body st) - pos st)", goal_cases)
  case 1
  show ?case by simp
next
  case (2 st path out x crcLen st1 y crc st2 r out1 p flags st3)
  then have "consumed st st3"
    using parseLeaf_round [of crcLen st1 st crc st2 flags st3 out1 path out] by simp
  then show ?case by (auto dest: consumed_measure)
qed

declare parseLeaf.simps [simp del]

section \<open>The tree walker\<close>

text \<open>
  \<open>parseTree\<close>, lines 377-399. The C++ function calls itself inside its \<open>for\<close> loop,
  on the state the earlier rounds left; the first argument here bounds the depth of these
  calls, and the outer \<open>None\<close> says that the bound was reached. \<open>parseTreeChildren\<close>
  is the \<open>for\<close> loop of lines 386-397 with its number of rounds left. \<open>modulesOut\<close>
  is \<open>result.modules\<close> at the one call of line 436, and is kept in \<open>result\<close> here.
  The inner \<open>None\<close> is \<open>return false\<close>.
\<close>

fun parseTree ::
  "nat \<Rightarrow> ParseState \<Rightarrow> FlirtResult \<Rightarrow> FlirtPatternNode list
     \<Rightarrow> (ParseState option \<times> FlirtResult) option"
  and parseTreeChildren ::
  "nat \<Rightarrow> nat \<Rightarrow> ParseState \<Rightarrow> FlirtResult \<Rightarrow> FlirtPatternNode list
     \<Rightarrow> (ParseState option \<times> FlirtResult) option" where
  "parseTree 0 st result path = None"
| "parseTree (Suc fuel) st result path =
     (let (treeNodes, st1) = readMultipleBytes st
      in if eof st1 \<or> err st1
         then Some (None, result\<lparr>errorMessage := ''Unexpected EOF in tree''\<rparr>)
         else if treeNodes = 0 then
           (let (r, modulesOut) = parseLeaf st1 path (modules result)
            in Some (r, result\<lparr>modules := modulesOut\<rparr>))
         else parseTreeChildren fuel (unat treeNodes) st1 result path)"
| "parseTreeChildren fuel 0 st result path = Some (Some st, result)"
| "parseTreeChildren fuel (Suc n) st result path =
     (case readNodeLength st of
        None \<Rightarrow> Some (None, result)
      | Some (nodeLen, st1) \<Rightarrow>
          (case readNodeVariantMask st1 nodeLen of
             None \<Rightarrow> Some (None, result)
           | Some (vmask, st2) \<Rightarrow>
               (case readNodeBytes st2 nodeLen vmask of
                  None \<Rightarrow> Some (None, result)
                | Some (node, st3) \<Rightarrow>
                    (case parseTree fuel st3 result (path @ [node]) of
                       None \<Rightarrow> None
                     | Some (None, result1) \<Rightarrow> Some (None, result1)
                     | Some (Some st4, result1) \<Rightarrow>
                         parseTreeChildren fuel n st4 result1 path))))"

section \<open>The header decoder and the entry point\<close>

text \<open>The magic of lines 132 and 143.\<close>

definition IDASGN :: "byte list" where
  "IDASGN = [0x49, 0x44, 0x41, 0x53, 0x47, 0x4E]"

text \<open>
  \<open>isFlirt\<close>, lines 130-136, with the content of \<open>*outVersion\<close> before the call; the
  result is the return value and the content after it.
\<close>

definition isFlirt :: "byte list \<Rightarrow> int \<Rightarrow> bool \<times> int" where
  "isFlirt data outVersion =
     (if length data < 7 then (False, outVersion)
      else if take 6 data \<noteq> IDASGN then (False, outVersion)
      else (let v = data ! 6 in (v \<ge> 5 \<and> v \<le> 10, uint v)))"

text \<open>\<open>QString::arg\<close> of an \<open>int\<close>: its decimal digits.\<close>

fun decimalNat :: "nat \<Rightarrow> string" where
  "decimalNat n =
     (if n < 10 then [char_of (48 + n)] else decimalNat (n div 10) @ [char_of (48 + n mod 10)])"

declare decimalNat.simps [simp del]

definition decimalInt :: "int \<Rightarrow> string" where
  "decimalInt i = (if i < 0 then ''-'' @ decimalNat (nat (- i)) else decimalNat (nat i))"

text \<open>The integers the header decoder puts together from bytes at \<open>st.pos\<close>.\<close>

definition le16 :: "byte list \<Rightarrow> nat \<Rightarrow> 16 word" where
  "le16 bs p = ucast (bs ! p) OR push_bit 8 (ucast (bs ! (p + 1)))"

definition le32 :: "byte list \<Rightarrow> nat \<Rightarrow> 32 word" where
  "le32 bs p =
     ucast (bs ! p) OR push_bit 8 (ucast (bs ! (p + 1))) OR push_bit 16 (ucast (bs ! (p + 2)))
       OR push_bit 24 (ucast (bs ! (p + 3)))"

definition be16 :: "byte list \<Rightarrow> nat \<Rightarrow> 16 word" where
  "be16 bs p = push_bit 8 (ucast (bs ! p)) OR ucast (bs ! (p + 1))"

text \<open>\<open>QByteArray::mid\<close>.\<close>

definition mid :: "byte list \<Rightarrow> nat \<Rightarrow> nat \<Rightarrow> byte list" where
  "mid bs p n = take n (drop p bs)"

text \<open>Lines 160-179 of \<open>parseHeader\<close>: the 30 bytes of the version 5 header.\<close>

definition parseHeaderV5 :: "ParseState \<Rightarrow> FlirtHeader \<Rightarrow> ParseState \<times> FlirtHeader" where
  "parseHeaderV5 st h0 =
     (let h1 = h0\<lparr>hdr_version := version st\<rparr>;
          (a, st1) = readByte st;
          h2 = h1\<lparr>arch := a\<rparr>;
          h3 = h2\<lparr>fileTypes := le32 (body st1) (pos st1)\<rparr>;
          st2 = st1\<lparr>pos := pos st1 + 4\<rparr>;
          h4 = h3\<lparr>osTypes := le16 (body st2) (pos st2)\<rparr>;
          st3 = st2\<lparr>pos := pos st2 + 2\<rparr>;
          h5 = h4\<lparr>appTypes := le16 (body st3) (pos st3)\<rparr>;
          st4 = st3\<lparr>pos := pos st3 + 2\<rparr>;
          h6 = h5\<lparr>features := le16 (body st4) (pos st4)\<rparr>;
          st5 = st4\<lparr>pos := pos st4 + 2\<rparr>;
          h7 = h6\<lparr>oldNFunctions := le16 (body st5) (pos st5)\<rparr>;
          st6 = st5\<lparr>pos := pos st5 + 2\<rparr>;
          h8 = h7\<lparr>hdr_crc16 := le16 (body st6) (pos st6)\<rparr>;
          st7 = st6\<lparr>pos := pos st6 + 2\<rparr>;
          h9 = h8\<lparr>ctype := mid (body st7) (pos st7) 12\<rparr>;
          st8 = st7\<lparr>pos := pos st7 + 12\<rparr>;
          (l, st9) = readByte st8;
          h10 = h9\<lparr>libraryNameLen := l\<rparr>;
          h11 = h10\<lparr>ctypesCrc16 := le16 (body st9) (pos st9)\<rparr>;
          st10 = st9\<lparr>pos := pos st9 + 2\<rparr>
      in (st10, h11))"

text \<open>
  Lines 181-195: the fields of the later versions. \<open>h\<close> is \<open>result.header\<close>, which
  the code writes through a reference; \<open>Inl\<close> is a \<open>return false\<close>, with the error
  message and the header as written until then.
\<close>

definition parseHeaderExt ::
  "ParseState \<Rightarrow> FlirtHeader \<Rightarrow> string \<times> FlirtHeader + ParseState \<times> FlirtHeader" where
  "parseHeaderExt st h =
     (if version st \<ge> 6 then
        (if pos st + 4 > length (body st) then Inl (''Truncated v6/v7 header'', h)
         else
           (let h1 = h\<lparr>nFunctions := le32 (body st) (pos st)\<rparr>;
                st1 = st\<lparr>pos := pos st + 4\<rparr>
            in if version st1 \<ge> 8 then
                 (if pos st1 + 2 > length (body st1) then Inl (''Truncated v8/v9 header'', h1)
                  else
                    (let h2 = h1\<lparr>patternSize := be16 (body st1) (pos st1)\<rparr>;
                         st2 = st1\<lparr>pos := pos st1 + 2\<rparr>
                     in if version st2 \<ge> 10 then
                          (if pos st2 + 2 > length (body st2)
                           then Inl (''Truncated v10 header'', h2)
                           else Inr (st2\<lparr>pos := pos st2 + 2\<rparr>,
                                     h2\<lparr>unknownV10 := be16 (body st2) (pos st2)\<rparr>))
                        else Inr (st2, h2)))
               else Inr (st1, h1)))
      else Inr (st, h))"

text \<open>\<open>parseHeader\<close>, lines 138-205. The first component \<open>None\<close> is \<open>return false\<close>.\<close>

definition parseHeader :: "ParseState \<Rightarrow> FlirtResult \<Rightarrow> ParseState option \<times> FlirtResult" where
  "parseHeader st result =
     (if length (body st) < 7 then (None, result\<lparr>errorMessage := ''File too short''\<rparr>)
      else if take 6 (body st) \<noteq> IDASGN
      then (None, result\<lparr>errorMessage := ''Invalid magic (not IDASGN)''\<rparr>)
      else
        (let st1 = st\<lparr>version := uint (body st ! 6), pos := 7\<rparr>
         in if version st1 < 5 \<or> version st1 > 10
            then (None, result\<lparr>errorMessage :=
                    ''Unsupported FLIRT version '' @ decimalInt (version st1)\<rparr>)
            else if pos st1 + 30 > length (body st1)
            then (None, result\<lparr>errorMessage := ''Truncated v5 header''\<rparr>)
            else
              (let (st2, h) = parseHeaderV5 st1 (header result)
               in case parseHeaderExt st2 h of
                    Inl (msg, h1) \<Rightarrow> (None, result\<lparr>header := h1, errorMessage := msg\<rparr>)
                  | Inr (st3, h1) \<Rightarrow>
                      if pos st3 + unat (libraryNameLen h1) > length (body st3)
                      then (None, result\<lparr>header := h1,
                              errorMessage := ''Truncated library name''\<rparr>)
                      else (Some (st3\<lparr>pos := pos st3 + unat (libraryNameLen h1)\<rparr>),
                            result\<lparr>header := h1,
                              libraryName :=
                                fromLatin1 (mid (body st3) (pos st3)
                                  (unat (libraryNameLen h1)))\<rparr>))))"

text \<open>
  \<open>parse\<close>, lines 401-443. \<open>have_zlib\<close> is the build's \<open>HAVE_ZLIB\<close> and
  \<open>decompressZlib\<close> the function of lines 12-34, which calls the zlib library; both are
  parameters. The walk gets one more unit of depth than the body has bytes; \<open>None\<close> says
  that it was not enough.
\<close>

definition parse ::
  "bool \<Rightarrow> (byte list \<Rightarrow> int \<Rightarrow> byte list) \<Rightarrow> byte list \<Rightarrow> FlirtResult option" where
  "parse have_zlib decompressZlib data =
     (let result = newFlirtResult;
          st = \<lparr>body = data, pos = 0, version = 0, eof = False, err = False\<rparr>;
          (ok, v) = isFlirt data (version st);
          st0 = st\<lparr>version := v\<rparr>
      in if \<not> ok then Some (result\<lparr>errorMessage := ''Not a valid FLIRT .sig file''\<rparr>)
         else
           (case parseHeader st0 result of
              (None, result1) \<Rightarrow> Some result1
            | (Some st1, result1) \<Rightarrow>
                (case (if features (header result1) AND ucast IDASIG_FEATURE_COMPRESSED \<noteq> 0
                       then
                         (if have_zlib then
                            (let body1 = drop (pos st1) (body st1);
                                 windowBits = (if version st1 = 5 \<or> version st1 = 6
                                               then - 15 else 15);
                                 decompressed = decompressZlib body1 windowBits
                             in if decompressed = [] then Inl ''FLIRT decompression failed''
                                else Inr (st1\<lparr>body := decompressed, pos := 0, eof := False,
                                            err := False\<rparr>))
                          else Inl ''Compressed .sig requires zlib (build without ZLIB found)'')
                       else Inr st1) of
                   Inl msg \<Rightarrow> Some (result1\<lparr>errorMessage := msg\<rparr>)
                 | Inr st2 \<Rightarrow>
                     (case parseTree (Suc (length (body st2))) st2 result1 [] of
                        None \<Rightarrow> None
                      | Some (None, result2) \<Rightarrow>
                          Some (if errorMessage result2 = []
                                then result2\<lparr>errorMessage := ''Parse error in signature tree''\<rparr>
                                else result2)
                      | Some (Some st3, result2) \<Rightarrow> Some (result2\<lparr>success := True\<rparr>)))))"

section \<open>Notions for the statements\<close>

subsection \<open>The reader\<close>

text \<open>The five primitives under one name, their results widened to 32 bits.\<close>

datatype primitive = Byte | U16be | U32be | Max2 | Multi

fun runPrimitive :: "primitive \<Rightarrow> ParseState \<Rightarrow> 32 word \<times> ParseState" where
  "runPrimitive Byte st = (let (r, st1) = readByte st in (ucast r, st1))"
| "runPrimitive U16be st = (let (r, st1) = readShortBE st in (ucast r, st1))"
| "runPrimitive U32be st = readWordBE st"
| "runPrimitive Max2 st = (let (r, st1) = readMax2Bytes st in (ucast r, st1))"
| "runPrimitive Multi st = readMultipleBytes st"

fun runPrimitives :: "primitive list \<Rightarrow> ParseState \<Rightarrow> 32 word list \<times> ParseState" where
  "runPrimitives [] st = ([], st)"
| "runPrimitives (p # ps) st =
     (let (r, st1) = runPrimitive p st; (rs, st2) = runPrimitives ps st1 in (r # rs, st2))"

text \<open>
  The encoder of the \<open>multi\<close> scheme, written from the spec's description of it (the
  repository only reads the scheme and has no encoder). One byte when the top bit is
  clear; two bytes with a prefix in \<open>0x80..0xbf\<close>; four bytes with a prefix in
  \<open>0xc0..0xdf\<close> that holds the top payload bits; else a prefix that carries no bits
  and four big-endian bytes.
\<close>

definition spec_multi_encode :: "32 word \<Rightarrow> byte list" where
  "spec_multi_encode v =
     (if v \<le> 0x7f then [ucast v]
      else if v \<le> 0x3fff then [0x80 OR ucast (drop_bit 8 v), ucast v]
      else if v \<le> 0x1fffffff then
        [0xc0 OR ucast (drop_bit 24 v), ucast (drop_bit 16 v), ucast (drop_bit 8 v), ucast v]
      else [0xe0, ucast (drop_bit 24 v), ucast (drop_bit 16 v), ucast (drop_bit 8 v), ucast v])"

text \<open>The state \<open>parse\<close> starts from (lines 403-407), on a buffer.\<close>

definition reader :: "byte list \<Rightarrow> ParseState" where
  "reader bs = \<lparr>body = bs, pos = 0, version = 0, eof = False, err = False\<rparr>"

text \<open>A stand-in for \<open>decompressZlib\<close> where the build has no zlib: it is never called.\<close>

definition noDecompress :: "byte list \<Rightarrow> int \<Rightarrow> byte list" where
  "noDecompress compressed windowBits = []"

subsection \<open>Nodes, modules and walks\<close>

text \<open>
  A node as \<open>readNodeBytes\<close> returns it; a module as one round of the inner loop of
  \<open>parseLeaf\<close> returns it, for a file of version \<open>v\<close>, under a path of such nodes.
\<close>

definition nodeOk :: "FlirtPatternNode \<Rightarrow> bool" where
  "nodeOk n \<longleftrightarrow>
     length (variantMask n) = length (patternBytes n) \<and> 1 \<le> length (patternBytes n)
     \<and> length (patternBytes n) \<le> 63"

definition emitted :: "int \<Rightarrow> FlirtModule \<Rightarrow> bool" where
  "emitted v m \<longleftrightarrow>
     list_all nodeOk (patternPath m)
     \<and> (\<exists>st cl crc fl st'.
           version st = v \<and> parseModule st (patternPath m) cl crc = Some (m, fl, st'))"

text \<open>
  What a walk from \<open>st\<close> with \<open>result\<close> leaves: modules are appended, each one
  emitted; when the walk returns \<open>true\<close> the state has only advanced and the message is
  as before; else the message is as before or that of line 380; nothing else changes.
\<close>

definition walked ::
  "ParseState \<Rightarrow> FlirtResult \<Rightarrow> ParseState option \<Rightarrow> FlirtResult \<Rightarrow> bool" where
  "walked st result r result' \<longleftrightarrow>
     (\<exists>new. modules result' = modules result @ new \<and> list_all (emitted (version st)) new)
     \<and> result' = result\<lparr>modules := modules result', errorMessage := errorMessage result'\<rparr>
     \<and> (case r of
           None \<Rightarrow> errorMessage result' = errorMessage result
                    \<or> errorMessage result' = ''Unexpected EOF in tree''
         | Some st' \<Rightarrow> advances st st' \<and> errorMessage result' = errorMessage result)"

text \<open>What the loop of \<open>toHexString\<close> appends at index \<open>i\<close>.\<close>

definition hexCell :: "FlirtPatternNode \<Rightarrow> nat \<Rightarrow> string" where
  "hexCell n i =
     (if i < length (variantMask n) \<and> variantMask n ! i \<noteq> 0 then ''..''
      else hexByte (patternBytes n ! i))"

text \<open>
  The deltas that the rounds of the loop of \<open>readModulePublicFunctions\<close> read, in
  order: the value \<open>readVersioned\<close> returns at the start of each round.
\<close>

function publicDeltas :: "ParseState \<Rightarrow> 32 word \<Rightarrow> 32 word list" where
  "publicDeltas st off =
     (case readPublicFunction st off of
        None \<Rightarrow> []
      | Some (f, flags, st1) \<Rightarrow>
          fst (readVersioned st) #
            (if flags AND IDASIG_PARSE_MORE_PUBLIC_NAMES \<noteq> 0
             then publicDeltas st1 (offset f) else []))"
  by pat_completeness auto
termination
  by (relation "measure (\<lambda>(st, off). length (body st) - pos st)")
    (auto dest!: readPublicFunction_consumed consumed_measure)

declare publicDeltas.simps [simp del]

text \<open>Running sums in \<open>quint32\<close>, and in the natural numbers.\<close>

fun runningSums :: "32 word \<Rightarrow> 32 word list \<Rightarrow> 32 word list" where
  "runningSums off [] = []"
| "runningSums off (d # ds) = (off + d) # runningSums (off + d) ds"

fun sumsFrom :: "nat \<Rightarrow> nat list \<Rightarrow> nat list" where
  "sumsFrom a [] = []"
| "sumsFrom a (d # ds) = (a + d) # sumsFrom (a + d) ds"

text \<open>
  A state that a checked read has left: neither flag is set, and \<open>c\<close> is the byte before
  the cursor.
\<close>

definition justRead :: "ParseState \<Rightarrow> byte \<Rightarrow> bool" where
  "justRead st c \<longleftrightarrow> \<not> eof st \<and> \<not> err st \<and> 0 < pos st \<and> pos st \<le> length (body st)
     \<and> c = body st ! (pos st - 1)"

subsection \<open>Example files\<close>

text \<open>
  A version 5 header with no library name, and a file whose only leaf holds one module
  that announces another CRC block (flags \<open>0x10\<close>) and then ends.
\<close>

definition header5 :: "byte list" where
  "header5 = IDASGN @ [5] @ replicate 30 0"

definition sigPartial :: "byte list" where
  "sigPartial = header5 @ [0x00, 0x04, 0x12, 0x34, 0x05, 0x08, 0x66, 0x6f, 0x6f, 0x10]"

text \<open>
  More files: a tree of two nested nodes over one module with two functions, a tail
  byte and a referenced function (version 5); a version 8 module whose tail-byte block
  has the count 0; a version 9 module whose second offset wraps around.
\<close>

definition sigTree :: "byte list" where
  "sigTree = header5 @
     [0x01, 0x03, 0x02, 0xAA, 0xBB,
      0x01, 0x02, 0x00, 0xCC, 0xDD,
      0x00, 0x04, 0x12, 0x34, 0x05,
      0x08, 0x66, 0x6f, 0x6f, 0x01,
      0x05, 0x62, 0x61, 0x72, 0x06,
      0x10, 0x99,
      0x20, 0x02, 0x61, 0x62]"

definition header8 :: "byte list" where
  "header8 = IDASGN @ [8] @ replicate 30 0 @ replicate 6 0"

definition header9 :: "byte list" where
  "header9 = IDASGN @ [9] @ replicate 30 0 @ replicate 6 0"

definition sigEmptyTail :: "byte list" where
  "sigEmptyTail = header8 @ [0x00, 0x04, 0x12, 0x34, 0x05, 0x08, 0x66, 0x6f, 0x6f, 0x02, 0x00]"

definition sigWrap :: "byte list" where
  "sigWrap = header9 @
     [0x00, 0x04, 0x12, 0x34, 0x05,
      0xe0, 0xff, 0xff, 0xff, 0xff, 0x66, 0x6f, 0x6f, 0x01,
      0x01, 0x62, 0x00]"

definition sigTreeModule :: FlirtModule where
  "sigTreeModule =
     \<lparr>patternPath =
        [\<lparr>patternBytes = [0xAA, 0, 0xBB], variantMask = [0, 1, 0]\<rparr>,
         \<lparr>patternBytes = [0xCC, 0xDD], variantMask = [0, 0]\<rparr>],
      crcLength = 4, crc16 = 0x1234, modLength = 5,
      publicFunctions =
        [\<lparr>name = ''foo'', offset = 8, isLocal = False, isCollision = False\<rparr>,
         \<lparr>name = ''bar'', offset = 13, isLocal = False, isCollision = False\<rparr>],
      tailBytes = [\<lparr>tb_offset = 0x10, tb_value = 0x99\<rparr>],
      referencedFunctions = [\<lparr>rf_offset = 0x20, rf_name = ''ab'', negativeOffset = False\<rparr>]\<rparr>"

definition sigEmptyTailModule :: FlirtModule where
  "sigEmptyTailModule =
     \<lparr>patternPath = [], crcLength = 4, crc16 = 0x1234, modLength = 5,
      publicFunctions = [\<lparr>name = ''foo'', offset = 8, isLocal = False, isCollision = False\<rparr>],
      tailBytes = [], referencedFunctions = []\<rparr>"

definition sigWrapModule :: FlirtModule where
  "sigWrapModule =
     \<lparr>patternPath = [], crcLength = 4, crc16 = 0x1234, modLength = 5,
      publicFunctions =
        [\<lparr>name = ''foo'', offset = 0xffffffff, isLocal = False, isCollision = False\<rparr>,
         \<lparr>name = ''b'', offset = 0, isLocal = False, isCollision = False\<rparr>],
      tailBytes = [], referencedFunctions = []\<rparr>"

text \<open>
  A version 8 module whose tail-byte block has the count 2 and whose block of referenced
  functions has the count 1.
\<close>

definition sigCounted :: "byte list" where
  "sigCounted = header8 @
     [0x00, 0x04, 0x12, 0x34, 0x05,
      0x08, 0x66, 0x6f, 0x6f, 0x06,
      0x02, 0x10, 0x99, 0x11, 0x98,
      0x01, 0x20, 0x02, 0x61, 0x62]"

definition sigCountedModule :: FlirtModule where
  "sigCountedModule =
     \<lparr>patternPath = [], crcLength = 4, crc16 = 0x1234, modLength = 5,
      publicFunctions = [\<lparr>name = ''foo'', offset = 8, isLocal = False, isCollision = False\<rparr>],
      tailBytes = [\<lparr>tb_offset = 0x10, tb_value = 0x99\<rparr>, \<lparr>tb_offset = 0x11, tb_value = 0x98\<rparr>],
      referencedFunctions = [\<lparr>rf_offset = 0x20, rf_name = ''ab'', negativeOffset = False\<rparr>]\<rparr>"

section \<open>The reader saturates\<close>

lemma readByte_exhausted:
  "length (body st) \<le> pos st \<Longrightarrow> readByte st = (0, st\<lparr>eof := True\<rparr>)"
  by (simp add: readByte_def)

lemma readShortBE_exhausted:
  "length (body st) \<le> pos st \<Longrightarrow> readShortBE st = (0, st\<lparr>eof := True\<rparr>)"
  by (simp add: readShortBE_def readByte_exhausted)

lemma readWordBE_exhausted:
  "length (body st) \<le> pos st \<Longrightarrow> readWordBE st = (0, st\<lparr>eof := True\<rparr>)"
  by (simp add: readWordBE_def readShortBE_exhausted)

lemma readMax2Bytes_exhausted:
  "length (body st) \<le> pos st \<Longrightarrow> readMax2Bytes st = (0, st\<lparr>eof := True\<rparr>)"
  by (simp add: readMax2Bytes_def readByte_exhausted)

lemma readMultipleBytes_exhausted:
  "length (body st) \<le> pos st \<Longrightarrow> readMultipleBytes st = (0, st\<lparr>eof := True\<rparr>)"
  by (simp add: readMultipleBytes_def readByte_exhausted)

lemma runPrimitive_exhausted:
  "length (body st) \<le> pos st \<Longrightarrow> runPrimitive p st = (0, st\<lparr>eof := True\<rparr>)"
  by (cases p)
    (simp_all add: readByte_exhausted readShortBE_exhausted readWordBE_exhausted
      readMax2Bytes_exhausted readMultipleBytes_exhausted)

lemma runPrimitives_exhausted:
  "length (body st) \<le> pos st \<Longrightarrow>
     runPrimitives ps st = (replicate (length ps) 0, if ps = [] then st else st\<lparr>eof := True\<rparr>)"
proof (induction ps arbitrary: st)
  case Nil
  then show ?case by simp
next
  case (Cons p ps)
  have "runPrimitives ps (st\<lparr>eof := True\<rparr>) =
      (replicate (length ps) 0, if ps = [] then st\<lparr>eof := True\<rparr> else st\<lparr>eof := True\<rparr>\<lparr>eof := True\<rparr>)"
    using Cons.prems by (intro Cons.IH) simp
  with Cons.prems show ?case by (simp add: runPrimitive_exhausted)
qed

lemma readByte_eof_end:
  "readByte st = (r, st') \<Longrightarrow> eof st' \<Longrightarrow> length (body st') \<le> pos st'"
  by (auto simp: readByte_def split: if_splits)

lemma readShortBE_eof_end:
  "readShortBE st = (r, st') \<Longrightarrow> eof st' \<Longrightarrow> length (body st') \<le> pos st'"
  by (auto simp: readShortBE_def Let_def split: prod.splits dest: readByte_eof_end)

lemma readWordBE_eof_end:
  "readWordBE st = (r, st') \<Longrightarrow> eof st' \<Longrightarrow> length (body st') \<le> pos st'"
  by (auto simp: readWordBE_def Let_def split: prod.splits dest: readShortBE_eof_end)

lemma readMax2Bytes_eof_end:
  "readMax2Bytes st = (r, st') \<Longrightarrow> eof st' \<Longrightarrow> length (body st') \<le> pos st'"
  by (auto simp: readMax2Bytes_def Let_def split: prod.splits if_splits dest: readByte_eof_end)

lemma readMultipleBytes_eof_end:
  "readMultipleBytes st = (r, st') \<Longrightarrow> eof st' \<Longrightarrow> length (body st') \<le> pos st'"
  by (auto simp: readMultipleBytes_def Let_def split: prod.splits if_splits
      dest: readByte_eof_end readShortBE_eof_end readWordBE_eof_end)

lemma runPrimitive_eof_end:
  "runPrimitive p st = (r, st') \<Longrightarrow> eof st' \<Longrightarrow> length (body st') \<le> pos st'"
  by (cases p)
    (auto split: prod.splits dest: readByte_eof_end readShortBE_eof_end readWordBE_eof_end
      readMax2Bytes_eof_end readMultipleBytes_eof_end)

lemma readByte_inBuffer:
  "readByte st = (r, st') \<Longrightarrow> pos st \<le> length (body st) \<Longrightarrow>
     pos st' \<le> length (body st') \<and> body st' = body st"
  by (auto simp: readByte_def split: if_splits)

lemma readShortBE_inBuffer:
  "readShortBE st = (r, st') \<Longrightarrow> pos st \<le> length (body st) \<Longrightarrow>
     pos st' \<le> length (body st') \<and> body st' = body st"
  by (auto simp: readShortBE_def Let_def split: prod.splits dest!: readByte_inBuffer)

lemma readWordBE_inBuffer:
  "readWordBE st = (r, st') \<Longrightarrow> pos st \<le> length (body st) \<Longrightarrow>
     pos st' \<le> length (body st') \<and> body st' = body st"
  by (auto simp: readWordBE_def Let_def split: prod.splits dest!: readShortBE_inBuffer)

lemma readMax2Bytes_inBuffer:
  "readMax2Bytes st = (r, st') \<Longrightarrow> pos st \<le> length (body st) \<Longrightarrow>
     pos st' \<le> length (body st') \<and> body st' = body st"
  by (auto simp: readMax2Bytes_def Let_def split: prod.splits if_splits
      dest!: readByte_inBuffer)

lemma readMultipleBytes_inBuffer:
  "readMultipleBytes st = (r, st') \<Longrightarrow> pos st \<le> length (body st) \<Longrightarrow>
     pos st' \<le> length (body st') \<and> body st' = body st"
  by (auto simp: readMultipleBytes_def Let_def split: prod.splits if_splits
      dest!: readByte_inBuffer readShortBE_inBuffer readWordBE_inBuffer)

lemma runPrimitive_inBuffer:
  "runPrimitive p st = (r, st') \<Longrightarrow> pos st \<le> length (body st) \<Longrightarrow>
     pos st' \<le> length (body st') \<and> body st' = body st"
  by (cases p)
    (auto split: prod.splits dest!: readByte_inBuffer readShortBE_inBuffer readWordBE_inBuffer
      readMax2Bytes_inBuffer readMultipleBytes_inBuffer)

text \<open>
  C8: at the end of the buffer every primitive returns 0, sets \<open>eof\<close> and leaves the
  cursor where it is; after a read that left \<open>eof\<close> set, all further reads return 0 and
  change nothing; and a cursor inside the buffer stays inside it.
\<close>

theorem reader_saturating:
  "(length (body st) \<le> pos st \<longrightarrow> runPrimitive p st = (0, st\<lparr>eof := True\<rparr>))
   \<and> (eof (snd (runPrimitive p st)) \<longrightarrow>
        runPrimitives ps (snd (runPrimitive p st)) =
          (replicate (length ps) 0, snd (runPrimitive p st)))
   \<and> (pos st \<le> length (body st) \<longrightarrow>
        pos (snd (runPrimitive p st)) \<le> length (body (snd (runPrimitive p st)))
        \<and> body (snd (runPrimitive p st)) = body st)"
proof (intro conjI impI)
  assume "length (body st) \<le> pos st"
  then show "runPrimitive p st = (0, st\<lparr>eof := True\<rparr>)" by (rule runPrimitive_exhausted)
next
  obtain r st' where r: "runPrimitive p st = (r, st')" by (cases "runPrimitive p st")
  assume "eof (snd (runPrimitive p st))"
  with r have e: "eof st'" by simp
  with r have "length (body st') \<le> pos st'" by (rule runPrimitive_eof_end)
  then have "runPrimitives ps st' =
      (replicate (length ps) 0, if ps = [] then st' else st'\<lparr>eof := True\<rparr>)"
    by (rule runPrimitives_exhausted)
  moreover have "st'\<lparr>eof := True\<rparr> = st'" using e by simp
  ultimately show "runPrimitives ps (snd (runPrimitive p st)) =
      (replicate (length ps) 0, snd (runPrimitive p st))"
    using r by simp
next
  obtain r st' where r: "runPrimitive p st = (r, st')" by (cases "runPrimitive p st")
  assume "pos st \<le> length (body st)"
  with r have *: "pos st' \<le> length (body st') \<and> body st' = body st"
    by (auto dest: runPrimitive_inBuffer)
  from * r show "pos (snd (runPrimitive p st)) \<le> length (body (snd (runPrimitive p st)))"
    by auto
  from * r show "body (snd (runPrimitive p st)) = body st"
    by simp
qed

theorem reader_saturating_witness:
  "runPrimitive Multi \<lparr>body = [0x81], pos = 1, version = 5, eof = False, err = False\<rparr> =
     (0, \<lparr>body = [0x81], pos = 1, version = 5, eof = True, err = False\<rparr>)
   \<and> runPrimitives [Byte, U16be, U32be, Max2, Multi]
        (snd (runPrimitive Max2 \<lparr>body = [0x81], pos = 0, version = 5, eof = False, err = False\<rparr>)) =
       ([0, 0, 0, 0, 0], \<lparr>body = [0x81], pos = 1, version = 5, eof = True, err = False\<rparr>)
   \<and> pos (snd (runPrimitive U32be \<lparr>body = [0x81], pos = 0, version = 5, eof = False, err = False\<rparr>)) \<le> 1"
  using reader_saturating [of "\<lparr>body = [0x81], pos = 1, version = 5, eof = False, err = False\<rparr>" Multi "[]"]
    reader_saturating [of "\<lparr>body = [0x81], pos = 0, version = 5, eof = False, err = False\<rparr>" Max2
      "[Byte, U16be, U32be, Max2, Multi]"]
    reader_saturating [of "\<lparr>body = [0x81], pos = 0, version = 5, eof = False, err = False\<rparr>" U32be "[]"]
  by (simp add: readMax2Bytes_def readByte_def readWordBE_def readShortBE_def)

section \<open>The \<open>multi\<close> encoding\<close>

text \<open>
  C2: each of the eight integers, encoded by the scheme and read back by
  \<open>readMultipleBytes\<close>, is the value read.
\<close>

theorem multi_round_trip:
  "map (\<lambda>v. fst (readMultipleBytes (reader (spec_multi_encode v))))
     [0, 0x7f, 0x80, 0x7fff, 0x8000, 0x3fffff, 0x400000, 0xffffffff] =
   [0, 0x7f, 0x80, 0x7fff, 0x8000, 0x3fffff, 0x400000, 0xffffffff]"
  by (simp add: spec_multi_encode_def reader_def readMultipleBytes_def readByte_def
      readShortBE_def readWordBE_def)

section \<open>The magic and version check of \<open>parse\<close>\<close>

lemma parse_rejects:
  assumes "fst (isFlirt data 0) = False"
  shows "parse have_zlib decompressZlib data =
           Some (newFlirtResult\<lparr>errorMessage := ''Not a valid FLIRT .sig file''\<rparr>)"
  using assms by (cases "isFlirt data 0") (simp add: parse_def)

text \<open>
  C1: an input whose first six bytes are not \<open>IDASGN\<close>, or that has no seventh byte, or
  whose seventh byte is below 5 or above 10, makes \<open>parse\<close> return a result with
  \<open>success = false\<close>.
\<close>

theorem parse_magic_version_check:
  assumes "take 6 data \<noteq> IDASGN \<or> length data < 7 \<or> data ! 6 < 5 \<or> 10 < data ! 6"
  shows "\<exists>r. parse have_zlib decompressZlib data = Some r \<and> success r = False"
proof -
  from assms have "fst (isFlirt data 0) = False"
    by (auto simp: isFlirt_def Let_def)
  then have "parse have_zlib decompressZlib data =
      Some (newFlirtResult\<lparr>errorMessage := ''Not a valid FLIRT .sig file''\<rparr>)"
    by (rule parse_rejects)
  then show ?thesis by (simp add: newFlirtResult_def)
qed

theorem parse_magic_version_check_witness:
  "(\<exists>r. parse False noDecompress (IDASGN @ [11]) = Some r \<and> success r = False)
   \<and> (\<exists>r. parse False noDecompress [0x49, 0x44, 0x41, 0x53, 0x47, 0x4F, 5] = Some r
         \<and> success r = False)"
  using parse_magic_version_check [of "IDASGN @ [11]" False noDecompress]
    parse_magic_version_check [of "[0x49, 0x44, 0x41, 0x53, 0x47, 0x4F, 5]" False noDecompress]
  by (simp add: IDASGN_def)

text \<open>
  C6 as the code has it: with the magic \<open>IDASGN\<close> and a version byte outside 5..10 the
  check of line 409 answers before \<open>parseHeader\<close> runs, so the message is that of line 410.
\<close>

theorem parse_unsupported_version_message:
  assumes "take 6 data = IDASGN" and "length data \<ge> 7" and "data ! 6 < 5 \<or> 10 < data ! 6"
  shows "\<exists>r. parse have_zlib decompressZlib data = Some r \<and> success r = False
           \<and> errorMessage r = ''Not a valid FLIRT .sig file''"
proof -
  from assms have "fst (isFlirt data 0) = False"
    by (auto simp: isFlirt_def Let_def)
  then have "parse have_zlib decompressZlib data =
      Some (newFlirtResult\<lparr>errorMessage := ''Not a valid FLIRT .sig file''\<rparr>)"
    by (rule parse_rejects)
  then show ?thesis by (simp add: newFlirtResult_def)
qed

theorem parse_unsupported_version_message_witness:
  "\<exists>r. parse False noDecompress (IDASGN @ [4]) = Some r \<and> success r = False
         \<and> errorMessage r = ''Not a valid FLIRT .sig file''"
  using parse_unsupported_version_message [of "IDASGN @ [4]" False noDecompress]
  by (simp add: IDASGN_def)

theorem parse_unsupported_version_counterexample:
  "take 6 (IDASGN @ [4]) = IDASGN \<and> (IDASGN @ [4]) ! 6 = 4
   \<and> parse False noDecompress (IDASGN @ [4]) =
       Some (newFlirtResult\<lparr>errorMessage := ''Not a valid FLIRT .sig file''\<rparr>)
   \<and> ''Not a valid FLIRT .sig file'' \<noteq> ''Unsupported FLIRT version '' @ decimalInt 4"
  by (simp add: IDASGN_def parse_def isFlirt_def Let_def)

text \<open>\<open>parseHeader\<close> alone has the message with the version, at line 150.\<close>

lemma parseHeader_unsupported_version:
  assumes "take 6 (body st) = IDASGN" and "length (body st) \<ge> 7"
    and "body st ! 6 < 5 \<or> 10 < body st ! 6"
  shows "parseHeader st result =
           (None, result\<lparr>errorMessage :=
              ''Unsupported FLIRT version '' @ decimalInt (uint (body st ! 6))\<rparr>)"
  using assms by (auto simp: parseHeader_def Let_def word_less_def word_le_def)

section \<open>The geometry of the variant mask\<close>

text \<open>The bit the loop of \<open>readNodeBytes\<close> holds at index \<open>i\<close>, and its test.\<close>

lemma node_bit_shift:
  "i < n \<Longrightarrow> n \<le> 64 \<Longrightarrow> drop_bit i (push_bit (n - 1) (1 :: 64 word)) = 2 ^ (n - 1 - i)"
  by (auto simp: push_bit_of_1 drop_bit_exp_eq possible_bit_word)

lemma node_bit_test:
  "k < 64 \<Longrightarrow> j < 64 \<Longrightarrow> (push_bit k (1 :: 64 word) AND 2 ^ j \<noteq> 0) \<longleftrightarrow> k = j"
  by (auto simp: push_bit_of_1 and_exp_eq_0_iff_not_bit bit_exp_iff possible_bit_word)

lemma readByte_available:
  "\<not> eof st \<Longrightarrow> \<not> err st \<Longrightarrow> pos st < length (body st) \<Longrightarrow>
     readByte st = (body st ! pos st, st\<lparr>pos := Suc (pos st)\<rparr>)"
  by (simp add: readByte_def)

lemma readNodeBytesLoop_concrete_tail:
  assumes "n - 1 - k < i" and "k < n" and "n \<le> 64" and "i \<le> n"
    and "length pb = n" and "length vm = n"
    and "\<not> eof st" and "\<not> err st" and "pos st + (n - i) \<le> length (body st)"
  shows "readNodeBytesLoop i n (drop_bit i (push_bit (n - 1) 1)) (push_bit k 1) st
           \<lparr>patternBytes = pb, variantMask = vm\<rparr> =
         Some (\<lparr>patternBytes = take i pb @ take (n - i) (drop (pos st) (body st)),
                variantMask = take i vm @ replicate (n - i) 0\<rparr>,
               st\<lparr>pos := pos st + (n - i)\<rparr>)"
  using assms
proof (induction "n - i" arbitrary: i st pb vm)
  case 0
  then show ?case by (simp add: readNodeBytesLoop.simps [of i])
next
  case (Suc d)
  from Suc.hyps(2) have lt: "i < n" by simp
  have bit: "drop_bit i (push_bit (n - 1) (1 :: 64 word)) = 2 ^ (n - 1 - i)"
    using lt Suc.prems(3) by (rule node_bit_shift)
  have "k \<noteq> n - 1 - i" using Suc.prems(1,2) lt by arith
  then have test: "push_bit k (1 :: 64 word) AND 2 ^ (n - 1 - i) = 0"
    using node_bit_test [of k "n - 1 - i"] Suc.prems(2,3) lt by simp
  have avail: "pos st < length (body st)" using Suc.prems(9) lt by arith
  have e: "n - i = Suc (n - Suc i)" using lt by arith
  let ?st1 = "st\<lparr>pos := Suc (pos st)\<rparr>"
  have rb: "readByte st = (body st ! pos st, ?st1)"
    using Suc.prems(7,8) avail by (rule readByte_available)
  define M where "M = (push_bit k 1 :: 64 word)"
  define B where "B = drop_bit i (push_bit (n - 1) 1 :: 64 word)"
  define B' where "B' = drop_bit (Suc i) (push_bit (n - 1) 1 :: 64 word)"
  have t: "M AND B = 0" unfolding M_def B_def using bit test by simp
  have sh: "drop_bit (Suc 0) B = B'" unfolding B_def B'_def by (simp add: drop_bit_drop_bit)
  have IH: "readNodeBytesLoop (Suc i) n B' M ?st1
           \<lparr>patternBytes = pb[i := body st ! pos st], variantMask = vm[i := 0]\<rparr> =
         Some (\<lparr>patternBytes = take (Suc i) (pb[i := body st ! pos st])
                  @ take (n - Suc i) (drop (pos ?st1) (body ?st1)),
                variantMask = take (Suc i) (vm[i := 0]) @ replicate (n - Suc i) 0\<rparr>,
               ?st1\<lparr>pos := pos ?st1 + (n - Suc i)\<rparr>)"
    unfolding B'_def M_def using Suc.hyps(2) Suc.prems lt by (intro Suc.hyps(1)) auto
  have pbs: "take (Suc i) (pb[i := body st ! pos st]) @ take (n - Suc i) (drop (Suc (pos st)) (body st))
      = take i pb @ take (n - i) (drop (pos st) (body st))"
  proof -
    have "drop (pos st) (body st) = body st ! pos st # drop (Suc (pos st)) (body st)"
      using avail by (simp add: Cons_nth_drop_Suc)
    then have "take (n - i) (drop (pos st) (body st)) =
        body st ! pos st # take (n - Suc i) (drop (Suc (pos st)) (body st))"
      by (simp add: e)
    moreover have "take (Suc i) (pb[i := body st ! pos st]) = take i pb @ [body st ! pos st]"
      using lt Suc.prems(5) by (simp add: take_Suc_conv_app_nth)
    ultimately show ?thesis by simp
  qed
  have vms: "take (Suc i) (vm[i := 0]) @ replicate (n - Suc i) (0 :: byte)
      = take i vm @ replicate (n - i) 0"
  proof -
    have "take (Suc i) (vm[i := 0]) = take i vm @ [0]"
      using lt Suc.prems(6) by (simp add: take_Suc_conv_app_nth)
    moreover have "replicate (n - i) (0 :: byte) = 0 # replicate (n - Suc i) 0"
      by (simp add: e)
    ultimately show ?thesis by simp
  qed
  have ps: "Suc (pos st) + (n - Suc i) = pos st + (n - i)" using lt by arith
  have "readNodeBytesLoop i n B M st \<lparr>patternBytes = pb, variantMask = vm\<rparr> =
      readNodeBytesLoop (Suc i) n B' M ?st1
        \<lparr>patternBytes = pb[i := body st ! pos st], variantMask = vm[i := 0]\<rparr>"
    by (subst readNodeBytesLoop.simps) (simp add: lt t sh rb Suc.prems(7,8))
  also have "\<dots> = Some (\<lparr>patternBytes = take i pb @ take (n - i) (drop (pos st) (body st)),
                variantMask = take i vm @ replicate (n - i) 0\<rparr>,
               st\<lparr>pos := pos st + (n - i)\<rparr>)"
    unfolding IH using pbs vms ps by simp
  finally show ?case unfolding M_def B_def .
qed

lemma readNodeBytesLoop_one_variant:
  assumes "i \<le> n - 1 - k" and "k < n" and "n \<le> 64"
    and "length pb = n" and "length vm = n"
    and "\<not> eof st" and "\<not> err st" and "pos st + (n - 1 - i) \<le> length (body st)"
  shows "readNodeBytesLoop i n (drop_bit i (push_bit (n - 1) 1)) (push_bit k 1) st
           \<lparr>patternBytes = pb, variantMask = vm\<rparr> =
         Some (\<lparr>patternBytes = take i pb @ take (n - 1 - k - i) (drop (pos st) (body st)) @ [0]
                  @ take k (drop (pos st + (n - 1 - k - i)) (body st)),
                variantMask = take i vm @ replicate (n - 1 - k - i) 0 @ [1] @ replicate k 0\<rparr>,
               st\<lparr>pos := pos st + (n - 1 - i)\<rparr>)"
  using assms
proof (induction "n - 1 - k - i" arbitrary: i st pb vm)
  case 0
  then have i: "i = n - 1 - k" by simp
  with "0.prems"(2) have lt: "i < n" and k: "n - Suc i = k" by arith+
  define M where "M = (push_bit k 1 :: 64 word)"
  define B where "B = drop_bit i (push_bit (n - 1) 1 :: 64 word)"
  define B' where "B' = drop_bit (Suc i) (push_bit (n - 1) 1 :: 64 word)"
  have bit: "drop_bit i (push_bit (n - 1) (1 :: 64 word)) = 2 ^ (n - 1 - i)"
    using lt "0.prems"(3) by (rule node_bit_shift)
  have "k = n - 1 - i" using k by simp
  then have "push_bit k (1 :: 64 word) AND 2 ^ (n - 1 - i) \<noteq> 0"
    using node_bit_test [of k "n - 1 - i"] "0.prems"(2,3) by simp
  then have t: "M AND B \<noteq> 0" unfolding M_def B_def using bit by simp
  have sh: "drop_bit (Suc 0) B = B'" unfolding B_def B'_def by (simp add: drop_bit_drop_bit)
  have tail: "readNodeBytesLoop (Suc i) n B' M st
           \<lparr>patternBytes = pb[i := 0], variantMask = vm[i := 1]\<rparr> =
         Some (\<lparr>patternBytes = take (Suc i) (pb[i := 0])
                  @ take (n - Suc i) (drop (pos st) (body st)),
                variantMask = take (Suc i) (vm[i := 1]) @ replicate (n - Suc i) 0\<rparr>,
               st\<lparr>pos := pos st + (n - Suc i)\<rparr>)"
    unfolding B'_def M_def using "0.prems" lt i
    by (intro readNodeBytesLoop_concrete_tail) auto
  have pbs: "take (Suc i) (pb[i := 0]) = take i pb @ [0]"
    using lt "0.prems"(4) by (simp add: take_Suc_conv_app_nth)
  have vms: "take (Suc i) (vm[i := 1]) = take i vm @ [1]"
    using lt "0.prems"(5) by (simp add: take_Suc_conv_app_nth)
  have "readNodeBytesLoop i n B M st \<lparr>patternBytes = pb, variantMask = vm\<rparr> =
      readNodeBytesLoop (Suc i) n B' M st
        \<lparr>patternBytes = pb[i := 0], variantMask = vm[i := 1]\<rparr>"
    by (subst readNodeBytesLoop.simps) (simp add: lt t sh)
  also have "\<dots> = Some (\<lparr>patternBytes = take i pb @ take (n - 1 - k - i) (drop (pos st) (body st))
                  @ [0] @ take k (drop (pos st + (n - 1 - k - i)) (body st)),
                variantMask = take i vm @ replicate (n - 1 - k - i) 0 @ [1] @ replicate k 0\<rparr>,
               st\<lparr>pos := pos st + (n - 1 - i)\<rparr>)"
    unfolding tail pbs vms using k i by simp
  finally show ?case unfolding M_def B_def .
next
  case (Suc d)
  from Suc.hyps(2) have lt': "i < n - 1 - k" by simp
  then have lt: "i < n" by arith
  have bit: "drop_bit i (push_bit (n - 1) (1 :: 64 word)) = 2 ^ (n - 1 - i)"
    using lt Suc.prems(3) by (rule node_bit_shift)
  have "k \<noteq> n - 1 - i" using lt' by arith
  then have test: "push_bit k (1 :: 64 word) AND 2 ^ (n - 1 - i) = 0"
    using node_bit_test [of k "n - 1 - i"] Suc.prems(2,3) lt by simp
  have avail: "pos st < length (body st)" using Suc.prems(8) lt' by arith
  have e: "n - 1 - k - i = Suc (n - 1 - k - Suc i)" using lt' by arith
  have e2: "n - Suc (k + i) = Suc (n - Suc (Suc (k + i)))" using lt' by arith
  let ?st1 = "st\<lparr>pos := Suc (pos st)\<rparr>"
  have rb: "readByte st = (body st ! pos st, ?st1)"
    using Suc.prems(6,7) avail by (rule readByte_available)
  define M where "M = (push_bit k 1 :: 64 word)"
  define B where "B = drop_bit i (push_bit (n - 1) 1 :: 64 word)"
  define B' where "B' = drop_bit (Suc i) (push_bit (n - 1) 1 :: 64 word)"
  have t: "M AND B = 0" unfolding M_def B_def using bit test by simp
  have sh: "drop_bit (Suc 0) B = B'" unfolding B_def B'_def by (simp add: drop_bit_drop_bit)
  have IH: "readNodeBytesLoop (Suc i) n B' M ?st1
           \<lparr>patternBytes = pb[i := body st ! pos st], variantMask = vm[i := 0]\<rparr> =
         Some (\<lparr>patternBytes = take (Suc i) (pb[i := body st ! pos st])
                  @ take (n - 1 - k - Suc i) (drop (pos ?st1) (body ?st1)) @ [0]
                  @ take k (drop (pos ?st1 + (n - 1 - k - Suc i)) (body ?st1)),
                variantMask = take (Suc i) (vm[i := 0]) @ replicate (n - 1 - k - Suc i) 0
                  @ [1] @ replicate k 0\<rparr>,
               ?st1\<lparr>pos := pos ?st1 + (n - 1 - Suc i)\<rparr>)"
    unfolding B'_def M_def using Suc.hyps(2) Suc.prems lt'
    by (intro Suc.hyps(1)) auto
  have pbs: "take (Suc i) (pb[i := body st ! pos st])
        @ take (n - 1 - k - Suc i) (drop (Suc (pos st)) (body st))
      = take i pb @ take (n - 1 - k - i) (drop (pos st) (body st))"
  proof -
    have "drop (pos st) (body st) = body st ! pos st # drop (Suc (pos st)) (body st)"
      using avail by (simp add: Cons_nth_drop_Suc)
    then have "take (n - 1 - k - i) (drop (pos st) (body st)) =
        body st ! pos st # take (n - 1 - k - Suc i) (drop (Suc (pos st)) (body st))"
      by (simp add: e2)
    moreover have "take (Suc i) (pb[i := body st ! pos st]) = take i pb @ [body st ! pos st]"
      using lt Suc.prems(4) by (simp add: take_Suc_conv_app_nth)
    ultimately show ?thesis by simp
  qed
  have vms: "take (Suc i) (vm[i := 0]) @ replicate (n - 1 - k - Suc i) (0 :: byte)
      = take i vm @ replicate (n - 1 - k - i) 0"
  proof -
    have "take (Suc i) (vm[i := 0]) = take i vm @ [0]"
      using lt Suc.prems(5) by (simp add: take_Suc_conv_app_nth)
    moreover have "replicate (n - 1 - k - i) (0 :: byte) = 0 # replicate (n - 1 - k - Suc i) 0"
      by (simp add: e2)
    ultimately show ?thesis by simp
  qed
  have ps: "Suc (pos st) + (n - 1 - Suc i) = pos st + (n - 1 - i)" using lt' by arith
  have ps2: "Suc (pos st) + (n - 1 - k - Suc i) = pos st + (n - 1 - k - i)" using lt' by arith
  have ps3: "Suc (pos st + n - Suc (Suc (k + i))) = pos st + n - Suc (k + i)" using lt' by arith
  have "readNodeBytesLoop i n B M st \<lparr>patternBytes = pb, variantMask = vm\<rparr> =
      readNodeBytesLoop (Suc i) n B' M ?st1
        \<lparr>patternBytes = pb[i := body st ! pos st], variantMask = vm[i := 0]\<rparr>"
    by (subst readNodeBytesLoop.simps) (simp add: lt t sh rb Suc.prems(6,7))
  also have "\<dots> = Some (\<lparr>patternBytes = take i pb @ take (n - 1 - k - i) (drop (pos st) (body st))
                  @ [0] @ take k (drop (pos st + (n - 1 - k - i)) (body st)),
                variantMask = take i vm @ replicate (n - 1 - k - i) 0 @ [1] @ replicate k 0\<rparr>,
               st\<lparr>pos := pos st + (n - 1 - i)\<rparr>)"
    unfolding IH using pbs vms ps ps2 ps3
    by (simp add: append_assoc [symmetric] del: append_assoc)
  finally show ?case unfolding M_def B_def .
qed

text \<open>
  C4: a node of length \<open>L\<close> (1..63) whose mask has exactly bit \<open>k < L\<close> set. When the
  stream holds the \<open>L - 1\<close> concrete bytes, \<open>readNodeBytes\<close> marks index \<open>L - 1 - k\<close>
  as variant (mask 1, byte 0) and every other index as concrete (mask 0), the concrete
  bytes being the next \<open>L - 1\<close> bytes of the stream in their order.
\<close>

theorem variant_mask_geometry:
  assumes "1 \<le> L" and "L \<le> 63" and "k < unat L"
    and "\<not> eof st" and "\<not> err st" and "pos st + (unat L - 1) \<le> length (body st)"
  shows "readNodeBytes st L (push_bit k 1) =
           Some (\<lparr>patternBytes =
                    take (unat L - 1 - k) (drop (pos st) (body st)) @ [0]
                      @ take k (drop (pos st + (unat L - 1 - k)) (body st)),
                  variantMask = replicate (unat L - 1 - k) 0 @ [1] @ replicate k 0\<rparr>,
                 st\<lparr>pos := pos st + (unat L - 1)\<rparr>)"
proof -
  have n: "unat L \<le> 64" using assms(2) by (simp add: word_le_nat_alt)
  have g: "\<not> (L > 63 \<or> L \<le> 0)" using assms(1,2) by (auto simp: word_le_nat_alt word_less_nat_alt)
  have "readNodeBytesLoop 0 (unat L) (drop_bit 0 (push_bit (unat L - 1) 1)) (push_bit k 1) st
           \<lparr>patternBytes = replicate (unat L) 0, variantMask = replicate (unat L) 0\<rparr> =
         Some (\<lparr>patternBytes = take 0 (replicate (unat L) 0)
                  @ take (unat L - 1 - k - 0) (drop (pos st) (body st)) @ [0]
                  @ take k (drop (pos st + (unat L - 1 - k - 0)) (body st)),
                variantMask = take 0 (replicate (unat L) 0) @ replicate (unat L - 1 - k - 0) 0
                  @ [1] @ replicate k 0\<rparr>,
               st\<lparr>pos := pos st + (unat L - 1 - 0)\<rparr>)"
    using assms(3-6) n by (intro readNodeBytesLoop_one_variant) auto
  then show ?thesis using g by (simp add: readNodeBytes_def)
qed

theorem variant_mask_geometry_witness:
  "readNodeBytes \<lparr>body = [0xAA, 0xBB, 0xCC], pos = 0, version = 5, eof = False, err = False\<rparr>
     4 (push_bit 1 1) =
   Some (\<lparr>patternBytes = [0xAA, 0xBB, 0, 0xCC], variantMask = [0, 0, 1, 0]\<rparr>,
         \<lparr>body = [0xAA, 0xBB, 0xCC], pos = 3, version = 5, eof = False, err = False\<rparr>)"
proof -
  have "replicate 2 (0 :: byte) = [0, 0]" by (simp add: numeral_2_eq_2)
  with variant_mask_geometry [of 4 1
      "\<lparr>body = [0xAA, 0xBB, 0xCC], pos = 0, version = 5, eof = False, err = False\<rparr>"]
  show ?thesis by simp
qed

section \<open>A name that reaches \<open>FLIRT_NAME_MAX\<close>\<close>




section \<open>What a successful parse emits\<close>

subsection \<open>What the loops of the module decoder change\<close>

lemma readModulePublicFunctionsLoop_frame:
  "readModulePublicFunctionsLoop st md off = Some (md', fl, st') \<Longrightarrow>
     \<exists>fs. fs \<noteq> [] \<and> md' = md\<lparr>publicFunctions := publicFunctions md @ fs\<rparr>"
proof (induction st md off rule: readModulePublicFunctionsLoop.induct)
  case (1 st md off)
  from "1.prems" obtain f flags st1 where r: "readPublicFunction st off = Some (f, flags, st1)"
    by (auto simp: readModulePublicFunctionsLoop.simps [of st md off] split: option.splits)
  let ?md1 = "md\<lparr>publicFunctions := publicFunctions md @ [f]\<rparr>"
  show ?case
  proof (cases "flags AND IDASIG_PARSE_MORE_PUBLIC_NAMES \<noteq> 0")
    case True
    with "1.prems" r have
      "readModulePublicFunctionsLoop st1 ?md1 (offset f) = Some (md', fl, st')"
      by (simp add: readModulePublicFunctionsLoop.simps [of st md off])
    from "1.IH" [OF r refl refl refl True this] obtain fs where
      "md' = ?md1\<lparr>publicFunctions := publicFunctions ?md1 @ fs\<rparr>" by blast
    then have "md' = md\<lparr>publicFunctions := publicFunctions md @ (f # fs)\<rparr>" by simp
    then show ?thesis by blast
  next
    case False
    with "1.prems" r have "md' = md\<lparr>publicFunctions := publicFunctions md @ [f]\<rparr>"
      by (simp add: readModulePublicFunctionsLoop.simps [of st md off])
    then show ?thesis by blast
  qed
qed

lemma readModuleTailBytesLoop_frame:
  "readModuleTailBytesLoop n st md = Some (md', st') \<Longrightarrow>
     \<exists>ts. length ts = n \<and> md' = md\<lparr>tailBytes := tailBytes md @ ts\<rparr>"
proof (induction n arbitrary: st md)
  case 0
  then show ?case by simp
next
  case (Suc n)
  obtain off st1 where a: "readVersioned st = (off, st1)" by (cases "readVersioned st")
  obtain v st2 where b: "readByte st1 = (v, st2)" by (cases "readByte st1")
  let ?md1 = "md\<lparr>tailBytes := tailBytes md @ [\<lparr>tb_offset = off, tb_value = v\<rparr>]\<rparr>"
  from Suc.prems a b have "readModuleTailBytesLoop n st2 ?md1 = Some (md', st')"
    by (auto simp: Let_def split: if_splits)
  from Suc.IH [OF this] obtain ts where
    "length ts = n" and "md' = ?md1\<lparr>tailBytes := tailBytes ?md1 @ ts\<rparr>" by blast
  then have "length (\<lparr>tb_offset = off, tb_value = v\<rparr> # ts) = Suc n
      \<and> md' = md\<lparr>tailBytes := tailBytes md @ (\<lparr>tb_offset = off, tb_value = v\<rparr> # ts)\<rparr>"
    by simp
  then show ?case by blast
qed

lemma readModuleReferencedFunctionsLoop_frame:
  "readModuleReferencedFunctionsLoop n st md = Some (md', st') \<Longrightarrow>
     \<exists>rs. length rs = n \<and> md' = md\<lparr>referencedFunctions := referencedFunctions md @ rs\<rparr>"
proof (induction n arbitrary: st md)
  case 0
  then show ?case by simp
next
  case (Suc n)
  obtain off st1 where a: "readVersioned st = (off, st1)" by (cases "readVersioned st")
  from Suc.prems a obtain nameLen st2 where b: "readRefNameLen st1 = Some (nameLen, st2)"
    by (auto simp: Let_def split: if_splits option.splits)
  from Suc.prems a b obtain nameBytes st3 where
    c: "readRefNameLoop (unat nameLen) st2 [] = Some (nameBytes, st3)"
    by (auto simp: Let_def split: if_splits option.splits)
  let ?rf = "finishRefFunction off nameBytes"
  let ?md1 = "md\<lparr>referencedFunctions := referencedFunctions md @ [?rf]\<rparr>"
  from Suc.prems a b c have "readModuleReferencedFunctionsLoop n st3 ?md1 = Some (md', st')"
    by (auto simp: Let_def split: if_splits)
  from Suc.IH [OF this] obtain rs where
    "length rs = n" and "md' = ?md1\<lparr>referencedFunctions := referencedFunctions ?md1 @ rs\<rparr>"
    by blast
  then have "length (?rf # rs) = Suc n
      \<and> md' = md\<lparr>referencedFunctions := referencedFunctions md @ (?rf # rs)\<rparr>"
    by simp
  then show ?case by blast
qed

text \<open>
  What \<open>parseModule\<close> returns, step by step: the state and module after the length,
  after the function list, after the tail bytes.
\<close>

lemma parseModule_steps:
  assumes "parseModule st path cl crc = Some (m, fl, st')"
  obtains len st1 md2 st2 md3 st3 where
    "readVersioned st = (len, st1)"
    "\<not> eof st1" "\<not> err st1"
    "readModulePublicFunctions st1
       (newFlirtModule\<lparr>patternPath := path, crcLength := ucast cl, crc16 := ucast crc,
          modLength := len\<rparr>) = Some (md2, fl, st2)"
    "(if fl AND IDASIG_PARSE_READ_TAIL_BYTES \<noteq> 0
      then readModuleTailBytes st2 md2 else Some (md2, st2)) = Some (md3, st3)"
    "(if fl AND IDASIG_PARSE_READ_REFERENCED_FUNCTIONS \<noteq> 0
      then readModuleReferencedFunctions st3 md3 else Some (md3, st3)) = Some (m, st')"
proof -
  obtain len st1 where a: "readVersioned st = (len, st1)" by (cases "readVersioned st")
  let ?md1 = "newFlirtModule\<lparr>patternPath := path, crcLength := ucast cl, crc16 := ucast crc,
                modLength := len\<rparr>"
  from assms a have ok: "\<not> eof st1" "\<not> err st1"
    by (auto simp: parseModule_def Let_def split: if_splits)
  from assms a obtain md2 fl2 st2 where
    b: "readModulePublicFunctions st1 ?md1 = Some (md2, fl2, st2)"
    by (auto simp: parseModule_def Let_def split: if_splits option.splits)
  from assms a b have fl: "fl2 = fl"
    by (auto simp: parseModule_def Let_def split: if_splits option.splits)
  from assms a b fl obtain md3 st3 where
    c: "(if fl AND IDASIG_PARSE_READ_TAIL_BYTES \<noteq> 0
         then readModuleTailBytes st2 md2 else Some (md2, st2)) = Some (md3, st3)"
    by (auto simp: parseModule_def Let_def split: if_splits option.splits)
  from assms a b c fl have
    d: "(if fl AND IDASIG_PARSE_READ_REFERENCED_FUNCTIONS \<noteq> 0
         then readModuleReferencedFunctions st3 md3 else Some (md3, st3)) = Some (m, st')"
    by (auto simp: parseModule_def Let_def split: if_splits option.splits)
  from a ok b [unfolded fl] c d show ?thesis by (rule that)
qed

subsection \<open>The modules a walk appends\<close>

lemma readNodeBytesLoop_lengths:
  "readNodeBytesLoop i n b vm st node = Some (node', st') \<Longrightarrow>
     length (patternBytes node') = length (patternBytes node)
     \<and> length (variantMask node') = length (variantMask node)"
proof (induction i n b vm st node rule: readNodeBytesLoop.induct)
  case (1 i n b vm st node)
  show ?case
  proof (cases "i < n")
    case False
    with "1.prems" show ?thesis by (simp add: readNodeBytesLoop.simps [of i])
  next
    case lt: True
    let ?n1 = "node\<lparr>variantMask := (variantMask node)[i := (if vm AND b \<noteq> 0 then 1 else 0)]\<rparr>"
    show ?thesis
    proof (cases "vm AND b \<noteq> 0")
      case True
      with "1.prems" lt have
        "readNodeBytesLoop (i + 1) n (drop_bit 1 b) vm st
           (?n1\<lparr>patternBytes := (patternBytes ?n1)[i := 0]\<rparr>) = Some (node', st')"
        by (simp add: readNodeBytesLoop.simps [of i] Let_def)
      from "1.IH"(1) [OF lt refl True this] show ?thesis by simp
    next
      case False
      obtain c st1 where r: "readByte st = (c, st1)" by (cases "readByte st")
      from "1.prems" lt False r have ok: "\<not> (eof st \<or> err st)"
        and rec: "readNodeBytesLoop (i + 1) n (drop_bit 1 b) vm st1
           (?n1\<lparr>patternBytes := (patternBytes ?n1)[i := c]\<rparr>) = Some (node', st')"
        by (auto simp: readNodeBytesLoop.simps [of i] Let_def split: if_splits)
      from "1.IH"(2) [OF lt refl False ok refl r [symmetric] rec] show ?thesis by simp
    qed
  qed
qed

lemma readNodeBytes_nodeOk:
  assumes "readNodeBytes st L vm = Some (node, st')"
  shows "nodeOk node"
proof -
  from assms have g: "\<not> (L > 63 \<or> L \<le> 0)"
    by (auto simp: readNodeBytes_def split: if_splits)
  then have n: "1 \<le> unat L \<and> unat L \<le> 63"
    by (auto simp: word_le_nat_alt word_less_nat_alt not_le not_less)
  from assms g have "readNodeBytesLoop 0 (unat L) (push_bit (unat L - 1) 1) vm st
      \<lparr>patternBytes = replicate (unat L) 0, variantMask = replicate (unat L) 0\<rparr>
      = Some (node, st')"
    by (simp add: readNodeBytes_def)
  from readNodeBytesLoop_lengths [OF this] n show ?thesis by (simp add: nodeOk_def)
qed

lemma parseModule_patternPath:
  assumes "parseModule st path cl crc = Some (m, fl, st')"
  shows "patternPath m = path"
proof -
  from assms obtain len st1 md2 st2 md3 st3 where
    b: "readModulePublicFunctions st1
       (newFlirtModule\<lparr>patternPath := path, crcLength := ucast cl, crc16 := ucast crc,
          modLength := len\<rparr>) = Some (md2, fl, st2)"
    and c: "(if fl AND IDASIG_PARSE_READ_TAIL_BYTES \<noteq> 0
      then readModuleTailBytes st2 md2 else Some (md2, st2)) = Some (md3, st3)"
    and d: "(if fl AND IDASIG_PARSE_READ_REFERENCED_FUNCTIONS \<noteq> 0
      then readModuleReferencedFunctions st3 md3 else Some (md3, st3)) = Some (m, st')"
    by (rule parseModule_steps)
  from b have 1: "patternPath md2 = path"
    by (auto simp: readModulePublicFunctions_def dest!: readModulePublicFunctionsLoop_frame)
  from c have 2: "patternPath md3 = patternPath md2"
    by (auto simp: readModuleTailBytes_def Let_def split: if_splits prod.splits
        dest!: readModuleTailBytesLoop_frame)
  from d have 3: "patternPath m = patternPath md3"
    by (auto simp: readModuleReferencedFunctions_def Let_def split: if_splits prod.splits
        dest!: readModuleReferencedFunctionsLoop_frame)
  from 1 2 3 show ?thesis by simp
qed

lemma parseModule_emitted:
  assumes "parseModule st path cl crc = Some (m, fl, st')" and "list_all nodeOk path"
  shows "emitted (version st) m"
proof -
  have p: "patternPath m = path" using assms(1) by (rule parseModule_patternPath)
  with assms(1) have "parseModule st (patternPath m) cl crc = Some (m, fl, st')" by simp
  then have "\<exists>st0 cl crc fl st'.
      version st0 = version st \<and> parseModule st0 (patternPath m) cl crc = Some (m, fl, st')"
    by blast
  with p assms(2) show ?thesis by (simp add: emitted_def)
qed

lemma parseLeafModules_emits:
  "parseLeafModules st path cl crc out = (r, out') \<Longrightarrow> list_all nodeOk path \<Longrightarrow>
     \<exists>new. out' = out @ new \<and> list_all (emitted (version st)) new"
proof (induction st path cl crc out rule: parseLeafModules.induct)
  case (1 st path cl crc out)
  show ?case
  proof (cases "parseModule st path cl crc")
    case None
    with "1.prems" have "out' = out @ []"
      by (simp add: parseLeafModules.simps [of st path cl crc out])
    then show ?thesis by (intro exI [of _ "[]"]) simp
  next
    case (Some x)
    then obtain md flags st1 where r: "parseModule st path cl crc = Some (md, flags, st1)"
      by (cases x) auto
    have e: "emitted (version st) md" using r "1.prems"(2) by (rule parseModule_emitted)
    have v: "version st1 = version st"
      using parseModule_consumed [OF r] by (simp add: consumed_def advances_def)
    show ?thesis
    proof (cases "flags AND IDASIG_PARSE_MORE_MODULES_WITH_SAME_CRC \<noteq> 0")
      case True
      with "1.prems" r have "parseLeafModules st1 path cl crc (out @ [md]) = (r, out')"
        by (simp add: parseLeafModules.simps [of st path cl crc out])
      from "1.IH" [OF r refl refl refl True this "1.prems"(2)] obtain new where
        "out' = (out @ [md]) @ new" and "list_all (emitted (version st1)) new" by blast
      with e v have "out' = out @ (md # new) \<and> list_all (emitted (version st)) (md # new)"
        by simp
      then show ?thesis by blast
    next
      case False
      with "1.prems" r have "out' = out @ [md]"
        by (simp add: parseLeafModules.simps [of st path cl crc out])
      with e have "out' = out @ [md] \<and> list_all (emitted (version st)) [md]" by simp
      then show ?thesis by blast
    qed
  qed
qed

lemma parseLeaf_emits:
  "parseLeaf st path out = (r, out') \<Longrightarrow> list_all nodeOk path \<Longrightarrow>
     \<exists>new. out' = out @ new \<and> list_all (emitted (version st)) new"
proof (induction st path out rule: parseLeaf.induct)
  case (1 st path out)
  obtain cl st1 where a: "readByte st = (cl, st1)" by (cases "readByte st")
  obtain crc st2 where b: "readShortBE st1 = (crc, st2)" by (cases "readShortBE st1")
  have v2: "version st2 = version st"
    using readByte_advances [OF a] readShortBE_advances [OF b] by (simp add: advances_def)
  have nil: "out' = out \<Longrightarrow> ?case" by (intro exI [of _ "[]"]) simp
  show ?case
  proof (cases "eof st1 \<or> err st1 \<or> eof st2 \<or> err st2")
    case True
    with "1.prems" a b have "out' = out"
      by (auto simp: parseLeaf.simps [of st path out] split: if_splits)
    then show ?thesis by (rule nil)
  next
    case ok: False
    obtain q out1 where c: "parseLeafModules st2 path cl crc out = (q, out1)"
      by (cases "parseLeafModules st2 path cl crc out")
    from parseLeafModules_emits [OF c "1.prems"(2)] v2 obtain new1 where
      n1: "out1 = out @ new1" "list_all (emitted (version st)) new1" by auto
    show ?thesis
    proof (cases q)
      case None
      with "1.prems" a b c ok have "out' = out1"
        by (simp add: parseLeaf.simps [of st path out])
      with n1 show ?thesis by blast
    next
      case (Some fs)
      then obtain flags st3 where q: "q = Some (flags, st3)" by (cases fs) auto
      have v3: "version st3 = version st"
        using parseLeafModules_consumed [OF c [unfolded q]] v2
        by (simp add: consumed_def advances_def)
      show ?thesis
      proof (cases "flags AND IDASIG_PARSE_MORE_MODULES \<noteq> 0")
        case True
        with "1.prems" a b c ok q have rec: "parseLeaf st3 path out1 = (r, out')"
          by (simp add: parseLeaf.simps [of st path out])
        from ok have ok1: "\<not> (eof st1 \<or> err st1)" and ok2: "\<not> (eof st2 \<or> err st2)" by auto
        from "1.IH" [OF refl a [symmetric] ok1 refl b [symmetric] ok2 c [unfolded q, symmetric] refl refl
            True rec "1.prems"(2)] v3
        obtain new2 where "out' = out1 @ new2" "list_all (emitted (version st)) new2" by auto
        with n1 have "out' = out @ (new1 @ new2) \<and> list_all (emitted (version st)) (new1 @ new2)"
          by simp
        then show ?thesis by blast
      next
        case False
        with "1.prems" a b c ok q have "out' = out1"
          by (simp add: parseLeaf.simps [of st path out])
        with n1 show ?thesis by blast
      qed
    qed
  qed
qed

lemma parseLeaf_consumed:
  "parseLeaf st path out = (Some st', out') \<Longrightarrow> consumed st st'"
proof (induction st path out rule: parseLeaf.induct)
  case (1 st path out)
  obtain cl st1 where a: "readByte st = (cl, st1)" by (cases "readByte st")
  obtain crc st2 where b: "readShortBE st1 = (crc, st2)" by (cases "readShortBE st1")
  from "1.prems" a b have ok1: "\<not> (eof st1 \<or> err st1)" and ok2: "\<not> (eof st2 \<or> err st2)"
    by (auto simp: parseLeaf.simps [of st path out] split: if_splits)
  obtain q out1 where c: "parseLeafModules st2 path cl crc out = (q, out1)"
    by (cases "parseLeafModules st2 path cl crc out")
  from "1.prems" a b c ok1 ok2 obtain flags st3 where q: "q = Some (flags, st3)"
    by (cases q) (auto simp: parseLeaf.simps [of st path out])
  have c3: "consumed st st3"
    using parseLeaf_round [OF a [symmetric] b [symmetric] c [unfolded q, symmetric]] .
  show ?case
  proof (cases "flags AND IDASIG_PARSE_MORE_MODULES \<noteq> 0")
    case True
    with "1.prems" a b c ok1 ok2 q have rec: "parseLeaf st3 path out1 = (Some st', out')"
      by (simp add: parseLeaf.simps [of st path out])
    from "1.IH" [OF refl a [symmetric] ok1 refl b [symmetric] ok2 c [unfolded q, symmetric] refl refl
        True rec] c3
    show ?thesis by (blast intro: consumed_advances_trans consumed_advances)
  next
    case False
    with "1.prems" a b c ok1 ok2 q have "st' = st3"
      by (simp add: parseLeaf.simps [of st path out])
    with c3 show ?thesis by simp
  qed
qed

lemma walked_refl: "walked st result (Some st) result"
  by (simp add: walked_def)

lemma walked_fail: "walked st result None result"
  by (simp add: walked_def)

lemma walked_trans:
  assumes "walked a result (Some b) result1" and "walked b result1 r result2"
  shows "walked a result r result2"
proof -
  from assms(1) have ab: "advances a b" and v: "version b = version a"
    by (auto simp: walked_def advances_def)
  from assms(1) obtain new1 where
    n1: "modules result1 = modules result @ new1" "list_all (emitted (version a)) new1"
    by (auto simp: walked_def)
  from assms(2) v obtain new2 where
    n2: "modules result2 = modules result1 @ new2" "list_all (emitted (version a)) new2"
    by (auto simp: walked_def)
  from n1 n2 have "modules result2 = modules result @ (new1 @ new2)
      \<and> list_all (emitted (version a)) (new1 @ new2)" by simp
  then have m: "\<exists>new. modules result2 = modules result @ new
      \<and> list_all (emitted (version a)) new" by blast
  from assms have f: "result2 = result\<lparr>modules := modules result2,
      errorMessage := errorMessage result2\<rparr>"
    by (cases result, cases result1, cases result2) (auto simp: walked_def)
  from assms ab have c: "(case r of
           None \<Rightarrow> errorMessage result2 = errorMessage result
                    \<or> errorMessage result2 = ''Unexpected EOF in tree''
         | Some st' \<Rightarrow> advances a st' \<and> errorMessage result2 = errorMessage result)"
    by (auto simp: walked_def split: option.splits intro: advances_trans)
  from m f c show ?thesis unfolding walked_def by blast
qed

lemma walked_advances:
  "advances a b \<Longrightarrow> walked b result r result' \<Longrightarrow> walked a result r result'"
  by (auto simp: walked_def advances_def split: option.splits)

lemma readNodeLength_advances: "readNodeLength st = Some (l, st') \<Longrightarrow> advances st st'"
  by (auto simp: readNodeLength_def split: if_splits dest: readByte_advances)

lemma readNodeVariantMask_advances:
  "readNodeVariantMask st l = Some (m, st') \<Longrightarrow> advances st st'"
  by (auto simp: readNodeVariantMask_def Let_def split: if_splits prod.splits
      dest!: readMax2Bytes_advances readMultipleBytes_advances intro: advances_trans)

lemma readNodeBytesLoop_advances:
  "readNodeBytesLoop i n b vm st node = Some (node', st') \<Longrightarrow> advances st st'"
proof (induction i n b vm st node rule: readNodeBytesLoop.induct)
  case (1 i n b vm st node)
  show ?case
  proof (cases "i < n")
    case False
    with "1.prems" show ?thesis by (simp add: readNodeBytesLoop.simps [of i])
  next
    case lt: True
    let ?n1 = "node\<lparr>variantMask := (variantMask node)[i := (if vm AND b \<noteq> 0 then 1 else 0)]\<rparr>"
    show ?thesis
    proof (cases "vm AND b \<noteq> 0")
      case True
      with "1.prems" lt have
        "readNodeBytesLoop (i + 1) n (drop_bit 1 b) vm st
           (?n1\<lparr>patternBytes := (patternBytes ?n1)[i := 0]\<rparr>) = Some (node', st')"
        by (simp add: readNodeBytesLoop.simps [of i] Let_def)
      from "1.IH"(1) [OF lt refl True this] show ?thesis .
    next
      case False
      obtain c st1 where r: "readByte st = (c, st1)" by (cases "readByte st")
      from "1.prems" lt False r have ok: "\<not> (eof st \<or> err st)"
        and rec: "readNodeBytesLoop (i + 1) n (drop_bit 1 b) vm st1
           (?n1\<lparr>patternBytes := (patternBytes ?n1)[i := c]\<rparr>) = Some (node', st')"
        by (auto simp: readNodeBytesLoop.simps [of i] Let_def split: if_splits)
      from "1.IH"(2) [OF lt refl False ok refl r [symmetric] rec] readByte_advances [OF r]
      show ?thesis by (rule advances_trans [rotated])
    qed
  qed
qed

lemma readNodeBytes_advances:
  "readNodeBytes st L vm = Some (node, st') \<Longrightarrow> advances st st'"
  by (auto simp: readNodeBytes_def split: if_splits dest: readNodeBytesLoop_advances)

lemma parseLeaf_walked:
  assumes "parseLeaf st path (modules result) = (r, out)" and "list_all nodeOk path"
  shows "walked st result r (result\<lparr>modules := out\<rparr>)"
proof -
  from parseLeaf_emits [OF assms] obtain new where
    "out = modules result @ new" "list_all (emitted (version st)) new" by blast
  moreover have "r = Some st' \<Longrightarrow> advances st st'" for st'
    using assms(1) by (auto dest: parseLeaf_consumed consumed_advances)
  ultimately show ?thesis by (auto simp: walked_def split: option.splits)
qed

lemma parseTree_walked:
  "parseTree fuel st result path = Some (r, result') \<Longrightarrow> list_all nodeOk path \<Longrightarrow>
     walked st result r result'"
  "parseTreeChildren fuel n st result path = Some (r, result') \<Longrightarrow> list_all nodeOk path \<Longrightarrow>
     walked st result r result'"
proof (induction fuel st result path and fuel n st result path arbitrary: r result' and r result'
    rule: parseTree_parseTreeChildren.induct)
  case (1 st result path)
  then show ?case by simp
next
  case (2 fuel st result path)
  obtain t st1 where a: "readMultipleBytes st = (t, st1)" by (cases "readMultipleBytes st")
  have adv: "advances st st1" using a by (rule readMultipleBytes_advances)
  show ?case
  proof (cases "eof st1 \<or> err st1")
    case True
    with "2.prems" a have "r = None"
      and "result' = result\<lparr>errorMessage := ''Unexpected EOF in tree''\<rparr>" by auto
    then show ?thesis by (simp add: walked_def)
  next
    case ok: False
    show ?thesis
    proof (cases "t = 0")
      case True
      obtain q out where l: "parseLeaf st1 path (modules result) = (q, out)"
        by (cases "parseLeaf st1 path (modules result)")
      with "2.prems" a ok True have "r = q" and "result' = result\<lparr>modules := out\<rparr>" by auto
      with parseLeaf_walked [OF l "2.prems"(2)] adv show ?thesis
        by (auto intro: walked_advances)
    next
      case False
      with "2.prems" a ok have
        "parseTreeChildren fuel (unat t) st1 result path = Some (r, result')" by auto
      from "2.IH" [OF refl a [symmetric] ok False this "2.prems"(2)] adv show ?thesis
        by (rule walked_advances [rotated])
    qed
  qed
next
  case (3 fuel st result path)
  then show ?case by (auto simp: walked_refl)
next
  case (4 fuel n st result path)
  show ?case
  proof (cases "readNodeLength st")
    case None
    with "4.prems" show ?thesis by (auto simp: walked_fail)
  next
    case (Some x)
    then obtain nodeLen st1 where a: "readNodeLength st = Some (nodeLen, st1)" by (cases x) auto
    show ?thesis
    proof (cases "readNodeVariantMask st1 nodeLen")
      case None
      with "4.prems" a show ?thesis by (auto simp: walked_fail)
    next
      case (Some y)
      then obtain vmask st2 where b: "readNodeVariantMask st1 nodeLen = Some (vmask, st2)"
        by (cases y) auto
      show ?thesis
      proof (cases "readNodeBytes st2 nodeLen vmask")
        case None
        with "4.prems" a b show ?thesis by (auto simp: walked_fail)
      next
        case (Some z)
        then obtain node st3 where c: "readNodeBytes st2 nodeLen vmask = Some (node, st3)"
          by (cases z) auto
        have adv: "advances st st3"
          using readNodeLength_advances [OF a] readNodeVariantMask_advances [OF b]
            readNodeBytes_advances [OF c] by (blast intro: advances_trans)
        have okp: "list_all nodeOk (path @ [node])"
          using "4.prems"(2) readNodeBytes_nodeOk [OF c] by simp
        from "4.prems" a b c obtain q result1 where
          d: "parseTree fuel st3 result (path @ [node]) = Some (q, result1)"
          by (cases "parseTree fuel st3 result (path @ [node])") auto
        have w1: "walked st3 result q result1"
          using "4.IH"(1) [OF a refl b refl c refl d okp] .
        show ?thesis
        proof (cases q)
          case None
          with "4.prems" a b c d have "r = None" and "result' = result1" by auto
          with w1 None adv show ?thesis by (auto intro: walked_advances)
        next
          case (Some st4)
          with "4.prems" a b c d have
            e: "parseTreeChildren fuel n st4 result1 path = Some (r, result')" by auto
          have w2: "walked st4 result1 r result'"
            using "4.IH"(2) [OF a refl b refl c refl d refl Some e "4.prems"(2)] .
          from w1 [unfolded Some] w2 have "walked st3 result r result'" by (rule walked_trans)
          with adv show ?thesis by (rule walked_advances)
        qed
      qed
    qed
  qed
qed

subsection \<open>The walk returns\<close>

lemma readMultipleBytes_nonzero_consumed:
  assumes "readMultipleBytes st = (t, st1)" and "t \<noteq> 0"
  shows "consumed st st1"
proof (cases "eof st \<or> err st \<or> pos st \<ge> length (body st)")
  case True
  then have "readByte st = (0, st\<lparr>eof := (pos st \<ge> length (body st))\<rparr>)"
    by (simp add: readByte_def)
  with assms show ?thesis by (simp add: readMultipleBytes_def)
next
  case False
  then have rb: "readByte st = (body st ! pos st, st\<lparr>pos := Suc (pos st)\<rparr>)"
    by (simp add: readByte_def)
  have c: "consumed st (st\<lparr>pos := Suc (pos st)\<rparr>)"
    using False by (simp add: consumed_def advances_def)
  have "advances (st\<lparr>pos := Suc (pos st)\<rparr>) st1"
    using assms(1) rb
    by (auto simp: readMultipleBytes_def Let_def split: if_splits prod.splits
        dest!: readByte_advances readShortBE_advances readWordBE_advances
        intro: advances_trans)
  with c show ?thesis by (rule consumed_advances_trans)
qed

lemma walked_measure:
  "walked st result (Some st') result' \<Longrightarrow>
     length (body st') - pos st' \<le> length (body st) - pos st"
  by (auto simp: walked_def advances_def)

lemma advances_measure:
  "advances st st' \<Longrightarrow> length (body st') - pos st' \<le> length (body st) - pos st"
  by (auto simp: advances_def)

lemma parseTree_fuel:
  "length (body st) - pos st < fuel \<Longrightarrow> list_all nodeOk path \<Longrightarrow>
     parseTree fuel st result path \<noteq> None"
  "length (body st) - pos st < fuel \<Longrightarrow> list_all nodeOk path \<Longrightarrow>
     parseTreeChildren fuel n st result path \<noteq> None"
proof (induction fuel st result path and fuel n st result path
    rule: parseTree_parseTreeChildren.induct)
  case (1 st result path)
  then show ?case by simp
next
  case (2 fuel st result path)
  obtain t st1 where a: "readMultipleBytes st = (t, st1)" by (cases "readMultipleBytes st")
  show ?case
  proof (cases "eof st1 \<or> err st1")
    case True
    with a show ?thesis by simp
  next
    case ok: False
    show ?thesis
    proof (cases "t = 0")
      case True
      with a ok show ?thesis by (simp split: prod.splits)
    next
      case False
      from a False have "consumed st st1" by (rule readMultipleBytes_nonzero_consumed)
      then have "length (body st1) - pos st1 < length (body st) - pos st"
        by (rule consumed_measure)
      with "2.prems"(1) have "length (body st1) - pos st1 < fuel" by arith
      from "2.IH" [OF refl a [symmetric] ok False this "2.prems"(2)] a ok False
      show ?thesis by simp
    qed
  qed
next
  case (3 fuel st result path)
  then show ?case by simp
next
  case (4 fuel n st result path)
  show ?case
  proof (cases "readNodeLength st")
    case None
    then show ?thesis by simp
  next
    case (Some x)
    then obtain nodeLen st1 where a: "readNodeLength st = Some (nodeLen, st1)" by (cases x) auto
    show ?thesis
    proof (cases "readNodeVariantMask st1 nodeLen")
      case None
      with a show ?thesis by simp
    next
      case (Some y)
      then obtain vmask st2 where b: "readNodeVariantMask st1 nodeLen = Some (vmask, st2)"
        by (cases y) auto
      show ?thesis
      proof (cases "readNodeBytes st2 nodeLen vmask")
        case None
        with a b show ?thesis by simp
      next
        case (Some z)
        then obtain node st3 where c: "readNodeBytes st2 nodeLen vmask = Some (node, st3)"
          by (cases z) auto
        have adv: "advances st st3"
          using readNodeLength_advances [OF a] readNodeVariantMask_advances [OF b]
            readNodeBytes_advances [OF c] by (blast intro: advances_trans)
        have okp: "list_all nodeOk (path @ [node])"
          using "4.prems"(2) readNodeBytes_nodeOk [OF c] by simp
        have m3: "length (body st3) - pos st3 < fuel"
          using advances_measure [OF adv] "4.prems"(1) by arith
        from "4.IH"(1) [OF a refl b refl c refl m3 okp] obtain q result1 where
          d: "parseTree fuel st3 result (path @ [node]) = Some (q, result1)" by auto
        show ?thesis
        proof (cases q)
          case None
          with a b c d show ?thesis by simp
        next
          case (Some st4)
          have "walked st3 result (Some st4) result1"
            using parseTree_walked(1) [OF d okp] Some by simp
          then have "length (body st4) - pos st4 < fuel"
            using walked_measure m3 by fastforce
          from "4.IH"(2) [OF a refl b refl c refl d refl Some this "4.prems"(2)] a b c d Some
          show ?thesis by simp
        qed
      qed
    qed
  qed
qed

subsection \<open>What \<open>parse\<close> returns\<close>

lemma parseHeaderV5_version:
  "parseHeaderV5 st h = (st', h') \<Longrightarrow> version st' = version st \<and> body st' = body st"
  by (auto simp: parseHeaderV5_def Let_def split: prod.splits dest!: readByte_advances
      simp: advances_def)

lemma parseHeaderExt_version:
  "parseHeaderExt st h = Inr (st', h') \<Longrightarrow> version st' = version st \<and> body st' = body st"
  by (auto simp: parseHeaderExt_def Let_def split: if_splits)

lemma parseHeaderExt_message: "parseHeaderExt st h = Inl (msg, h') \<Longrightarrow> msg \<noteq> []"
  by (auto simp: parseHeaderExt_def Let_def split: if_splits)

lemma parseHeader_result:
  assumes "parseHeader st result = (q, result1)"
  shows "modules result1 = modules result \<and> success result1 = success result
    \<and> (case q of
          None \<Rightarrow> errorMessage result1 \<noteq> []
        | Some st' \<Rightarrow> errorMessage result1 = errorMessage result
                     \<and> version st' = uint (body st ! 6) \<and> body st' = body st)"
proof (cases "length (body st) < 7 \<or> take 6 (body st) \<noteq> IDASGN")
  case True
  then have "parseHeader st result = (None, result\<lparr>errorMessage := ''File too short''\<rparr>)
      \<or> parseHeader st result = (None, result\<lparr>errorMessage := ''Invalid magic (not IDASGN)''\<rparr>)"
    by (auto simp: parseHeader_def)
  with assms show ?thesis by auto
next
  case magic: False
  let ?st1 = "st\<lparr>version := uint (body st ! 6), pos := 7\<rparr>"
  show ?thesis
  proof (cases "version ?st1 < 5 \<or> version ?st1 > 10 \<or> pos ?st1 + 30 > length (body ?st1)")
    case True
    with magic have "parseHeader st result =
          (None, result\<lparr>errorMessage :=
             ''Unsupported FLIRT version '' @ decimalInt (version ?st1)\<rparr>)
        \<or> parseHeader st result = (None, result\<lparr>errorMessage := ''Truncated v5 header''\<rparr>)"
      by (auto simp: parseHeader_def Let_def)
    with assms show ?thesis by auto
  next
    case ok: False
    obtain st2 h where v5: "parseHeaderV5 ?st1 (header result) = (st2, h)"
      by (cases "parseHeaderV5 ?st1 (header result)")
    from parseHeaderV5_version [OF v5] have s2: "version st2 = uint (body st ! 6)"
      "body st2 = body st" by simp_all
    have unf: "parseHeader st result =
        (case parseHeaderExt st2 h of
           Inl (msg, h1) \<Rightarrow> (None, result\<lparr>header := h1, errorMessage := msg\<rparr>)
         | Inr (st3, h1) \<Rightarrow>
             if pos st3 + unat (libraryNameLen h1) > length (body st3)
             then (None, result\<lparr>header := h1, errorMessage := ''Truncated library name''\<rparr>)
             else (Some (st3\<lparr>pos := pos st3 + unat (libraryNameLen h1)\<rparr>),
                   result\<lparr>header := h1,
                     libraryName :=
                       fromLatin1 (mid (body st3) (pos st3) (unat (libraryNameLen h1)))\<rparr>))"
      using magic ok v5 by (simp add: parseHeader_def Let_def)
    show ?thesis
    proof (cases "parseHeaderExt st2 h")
      case (Inl e)
      then obtain msg h1 where e: "parseHeaderExt st2 h = Inl (msg, h1)" by (cases e) auto
      with assms unf parseHeaderExt_message [OF e] show ?thesis by auto
    next
      case (Inr p)
      then obtain st3 h1 where e: "parseHeaderExt st2 h = Inr (st3, h1)" by (cases p) auto
      from parseHeaderExt_version [OF e] s2 have "version st3 = uint (body st ! 6)"
        "body st3 = body st" by simp_all
      with assms unf e show ?thesis by (auto split: if_splits)
    qed
  qed
qed

text \<open>
  The ways \<open>parse\<close> ends: before the walk, with a message and no module; or after a walk
  from a state of the file's version, with the message of line 437 when the walk failed and
  left none.
\<close>

lemma parse_cases:
  assumes "parse have_zlib decompressZlib data = Some r"
  obtains
    (early) "success r = False" "errorMessage r \<noteq> []" "modules r = []"
  | (walk) st2 result1 q result2 where
      "version st2 = uint (data ! 6)"
      "modules result1 = []" "errorMessage result1 = []" "success result1 = False"
      "walked st2 result1 q result2"
      "r = (case q of
              None \<Rightarrow> (if errorMessage result2 = []
                        then result2\<lparr>errorMessage := ''Parse error in signature tree''\<rparr>
                        else result2)
            | Some st3 \<Rightarrow> result2\<lparr>success := True\<rparr>)"
proof -
  let ?st = "\<lparr>body = data, pos = 0, version = 0, eof = False, err = False\<rparr>"
  obtain ok v where g: "isFlirt data 0 = (ok, v)" by (cases "isFlirt data 0")
  show ?thesis
  proof (cases ok)
    case False
    with assms g have "r = newFlirtResult\<lparr>errorMessage := ''Not a valid FLIRT .sig file''\<rparr>"
      by (simp add: parse_def)
    then show ?thesis by (intro early) (simp_all add: newFlirtResult_def)
  next
    case True
    obtain h result1 where ph: "parseHeader (?st\<lparr>version := v\<rparr>) newFlirtResult = (h, result1)"
      by (cases "parseHeader (?st\<lparr>version := v\<rparr>) newFlirtResult")
    show ?thesis
    proof (cases h)
      case None
      with assms g True ph have "r = result1" by (simp add: parse_def)
      with parseHeader_result [OF ph] None show ?thesis
        by (intro early) (simp_all add: newFlirtResult_def)
    next
      case (Some st1)
      from parseHeader_result [OF ph] Some
      have r1: "errorMessage result1 = []" "modules result1 = []" "success result1 = False"
        and v1: "version st1 = uint (data ! 6)"
        by (simp_all add: newFlirtResult_def)
      let ?inflated = "(if features (header result1) AND ucast IDASIG_FEATURE_COMPRESSED \<noteq> 0
             then
               (if have_zlib then
                  (let body1 = drop (pos st1) (body st1);
                       windowBits = (if version st1 = 5 \<or> version st1 = 6 then - 15 else 15);
                       decompressed = decompressZlib body1 windowBits
                   in if decompressed = [] then Inl ''FLIRT decompression failed''
                      else Inr (st1\<lparr>body := decompressed, pos := 0, eof := False,
                                  err := False\<rparr>))
                else Inl ''Compressed .sig requires zlib (build without ZLIB found)'')
             else Inr st1)"
      show ?thesis
      proof (cases ?inflated)
        case (Inl msg)
        then have "msg \<noteq> []" by (auto simp: Let_def split: if_splits)
        moreover from assms g True ph Some Inl have "r = result1\<lparr>errorMessage := msg\<rparr>"
          by (simp add: parse_def)
        ultimately show ?thesis using r1 by (intro early) simp_all
      next
        case (Inr st2)
        then have v2: "version st2 = uint (data ! 6)"
          using v1 by (auto simp: Let_def split: if_splits)
        from assms g True ph Some Inr obtain q result2 where
          t: "parseTree (Suc (length (body st2))) st2 result1 [] = Some (q, result2)"
          and r: "r = (case q of
              None \<Rightarrow> (if errorMessage result2 = []
                        then result2\<lparr>errorMessage := ''Parse error in signature tree''\<rparr>
                        else result2)
            | Some st3 \<Rightarrow> result2\<lparr>success := True\<rparr>)"
          by (cases "parseTree (Suc (length (body st2))) st2 result1 []")
            (auto simp: parse_def split: option.splits)
        have "walked st2 result1 q result2" using parseTree_walked(1) [OF t] by simp
        with v2 r1 r show ?thesis by (intro walk) auto
      qed
    qed
  qed
qed

lemma parse_returns: "\<exists>r. parse have_zlib decompressZlib data = Some r"
proof -
  let ?st = "\<lparr>body = data, pos = 0, version = 0, eof = False, err = False\<rparr>"
  obtain ok v where g: "isFlirt data 0 = (ok, v)" by (cases "isFlirt data 0")
  show ?thesis
  proof (cases ok)
    case False
    with g show ?thesis by (simp add: parse_def)
  next
    case True
    obtain h result1 where ph: "parseHeader (?st\<lparr>version := v\<rparr>) newFlirtResult = (h, result1)"
      by (cases "parseHeader (?st\<lparr>version := v\<rparr>) newFlirtResult")
    show ?thesis
    proof (cases h)
      case None
      with g True ph show ?thesis by (simp add: parse_def)
    next
      case (Some st1)
      let ?inflated = "(if features (header result1) AND ucast IDASIG_FEATURE_COMPRESSED \<noteq> 0
             then
               (if have_zlib then
                  (let body1 = drop (pos st1) (body st1);
                       windowBits = (if version st1 = 5 \<or> version st1 = 6 then - 15 else 15);
                       decompressed = decompressZlib body1 windowBits
                   in if decompressed = [] then Inl ''FLIRT decompression failed''
                      else Inr (st1\<lparr>body := decompressed, pos := 0, eof := False,
                                  err := False\<rparr>))
                else Inl ''Compressed .sig requires zlib (build without ZLIB found)'')
             else Inr st1)"
      show ?thesis
      proof (cases ?inflated)
        case (Inl msg)
        with g True ph Some show ?thesis by (simp add: parse_def)
      next
        case (Inr st2)
        have "parseTree (Suc (length (body st2))) st2 result1 [] \<noteq> None"
          by (rule parseTree_fuel) simp_all
        then obtain q result2 where
          "parseTree (Suc (length (body st2))) st2 result1 [] = Some (q, result2)" by auto
        with g True ph Some Inr show ?thesis
          by (cases q) (simp_all add: parse_def)
      qed
    qed
  qed
qed

section \<open>A failed parse\<close>

lemma parse_sigPartial:
  "parse False noDecompress sigPartial =
     Some \<lparr>success = False, errorMessage = ''Parse error in signature tree'', libraryName = [],
       header = newFlirtHeader\<lparr>hdr_version := 5, ctype := replicate 12 0\<rparr>,
       modules = [\<lparr>patternPath = [], crcLength = 4, crc16 = 0x1234, modLength = 5,
         publicFunctions = [\<lparr>name = ''foo'', offset = 8, isLocal = False, isCollision = False\<rparr>],
         tailBytes = [], referencedFunctions = []\<rparr>]\<rparr>"
  by code_simp

text \<open>
  C7 as the code has it: a failed parse has a message; its modules are those the walk had
  appended before it failed, so the list is empty for certain only when \<open>parse\<close> failed
  before the walk, and a non-empty list comes with one of the two messages of the walk.
\<close>

theorem parse_failure_keeps_modules:
  assumes "parse have_zlib decompressZlib data = Some r" and "success r = False"
  shows "errorMessage r \<noteq> []
    \<and> (modules r \<noteq> [] \<longrightarrow>
          errorMessage r = ''Unexpected EOF in tree''
          \<or> errorMessage r = ''Parse error in signature tree'')
    \<and> list_all (emitted (uint (data ! 6))) (modules r)"
  using assms(1)
proof (cases rule: parse_cases)
  case early
  then show ?thesis by simp
next
  case (walk st2 result1 q result2)
  from walk(5) walk(2) walk(1) have m: "list_all (emitted (uint (data ! 6))) (modules result2)"
    by (auto simp: walked_def)
  show ?thesis
  proof (cases q)
    case None
    with walk(5) walk(3) have "errorMessage result2 = []
        \<or> errorMessage result2 = ''Unexpected EOF in tree''"
      by (auto simp: walked_def)
    with walk(6) None m show ?thesis by auto
  next
    case (Some st3)
    with walk(6) assms(2) show ?thesis by simp
  qed
qed

theorem parse_failure_keeps_modules_witness:
  "errorMessage (the (parse False noDecompress sigPartial)) \<noteq> []
   \<and> list_all (emitted 5) (modules (the (parse False noDecompress sigPartial)))"
proof -
  have "uint (sigPartial ! 6) = 5" by (simp add: sigPartial_def header5_def IDASGN_def)
  with parse_failure_keeps_modules [OF parse_sigPartial] show ?thesis
    by (simp add: parse_sigPartial)
qed

theorem parse_failure_partial_modules_counterexample:
  "map_option success (parse False noDecompress sigPartial) = Some False
   \<and> map_option (length \<circ> modules) (parse False noDecompress sigPartial) = Some 1"
  by (simp add: parse_sigPartial)

section \<open>The hex rendering of a pattern path\<close>

lemma toHexStringFrom_eq:
  "toHexStringFrom n i out = out @ concat (map (hexCell n) [i..<length (patternBytes n)])"
proof (induction n i out rule: toHexStringFrom.induct)
  case (1 n i out)
  show ?case
  proof (cases "i < length (patternBytes n)")
    case False
    then show ?thesis by (simp add: toHexStringFrom.simps [of n i])
  next
    case lt: True
    then have up: "[i..<length (patternBytes n)] = i # [i + 1..<length (patternBytes n)]"
      by (simp add: upt_conv_Cons)
    show ?thesis
    proof (cases "i < length (variantMask n) \<and> variantMask n ! i \<noteq> 0")
      case True
      then have "toHexStringFrom n i out = toHexStringFrom n (i + 1) (out @ ''..'')"
        using lt by (simp add: toHexStringFrom.simps [of n i])
      with "1.IH"(1) [OF lt True] True up show ?thesis by (simp add: hexCell_def)
    next
      case False
      then have "toHexStringFrom n i out =
          toHexStringFrom n (i + 1) (out @ hexByte (patternBytes n ! i))"
        using lt by (auto simp: toHexStringFrom.simps [of n i])
      with "1.IH"(2) [OF lt False] False up show ?thesis by (auto simp: hexCell_def)
    qed
  qed
qed

lemma toHexString_eq:
  "toHexString n = concat (map (hexCell n) [0..<length (patternBytes n)])"
  by (simp add: toHexString_def toHexStringFrom_eq)

lemma length_hexCell: "length (hexCell n i) = 2"
  by (simp add: hexCell_def hexByte_def)

lemma length_toHexString: "length (toHexString n) = 2 * length (patternBytes n)"
proof -
  have "sum_list (map (\<lambda>i. length (hexCell n i)) xs) = 2 * length xs" for xs
    by (induction xs) (simp_all add: length_hexCell)
  then show ?thesis by (simp add: toHexString_eq length_concat comp_def)
qed

lemma concat_cells:
  assumes "\<forall>x\<in>set xs. length (f x) = 2" and "i < length xs"
  shows "take 2 (drop (2 * i) (concat (map f xs))) = f (xs ! i)"
  using assms
proof (induction xs arbitrary: i)
  case Nil
  then show ?case by simp
next
  case (Cons x xs)
  show ?case
  proof (cases i)
    case 0
    with Cons.prems show ?thesis by simp
  next
    case (Suc j)
    with Cons.prems have "take 2 (drop (2 * j) (concat (map f xs))) = f (xs ! j)"
      by (intro Cons.IH) auto
    moreover have "drop (2 * i) (f x @ concat (map f xs)) = drop (2 * j) (concat (map f xs))"
      using Cons.prems(1) Suc by simp
    ultimately show ?thesis using Suc by simp
  qed
qed

lemma toHexString_cell:
  assumes "i < length (patternBytes n)"
  shows "take 2 (drop (2 * i) (toHexString n)) = hexCell n i"
proof -
  have "take 2 (drop (2 * i) (concat (map (hexCell n) [0..<length (patternBytes n)]))) =
      hexCell n ([0..<length (patternBytes n)] ! i)"
    using assms by (intro concat_cells) (simp_all add: length_hexCell)
  with assms show ?thesis by (simp add: toHexString_eq)
qed

lemma hexDigit_upper: "hexDigit k \<in> set ''0123456789ABCDEF''"
  unfolding hexDigit_def by (rule nth_mem) simp

lemma hexByte_upper: "set (hexByte b) \<subseteq> set ''0123456789ABCDEF''"
  using hexDigit_upper by (simp add: hexByte_def)

lemma hexByte_not_dots: "hexByte b \<noteq> ''..''"
proof
  assume "hexByte b = ''..''"
  then have "CHR ''.'' \<in> set (hexByte b)" by simp
  with hexByte_upper [of b] show False by auto
qed

lemma concat_node_cell:
  assumes "j < length path" and "i < length (patternBytes (path ! j))"
  shows "take 2 (drop (2 * (sum_list (map (\<lambda>n. length (patternBytes n)) (take j path)) + i))
            (concat (map toHexString path))) = hexCell (path ! j) i"
  using assms
proof (induction path arbitrary: j)
  case Nil
  then show ?case by simp
next
  case (Cons n path)
  show ?case
  proof (cases j)
    case 0
    with Cons.prems have i: "i < length (patternBytes n)" by simp
    then have "2 * i + 2 \<le> length (toHexString n)" by (simp add: length_toHexString)
    then have "take 2 (drop (2 * i) (toHexString n @ concat (map toHexString path))) =
        take 2 (drop (2 * i) (toHexString n))"
      by simp
    with 0 i show ?thesis by (simp add: toHexString_cell)
  next
    case (Suc k)
    with Cons.prems have "take 2 (drop (2 * (sum_list (map (\<lambda>n. length (patternBytes n))
          (take k path)) + i)) (concat (map toHexString path))) = hexCell (path ! k) i"
      by (intro Cons.IH) auto
    then show ?thesis using Suc by (simp add: length_toHexString algebra_simps)
  qed
qed

lemma length_concat_toHexString:
  "length (concat (map toHexString path)) =
     2 * sum_list (map (\<lambda>n. length (patternBytes n)) path)"
  by (induction path) (simp_all add: length_toHexString)

lemma parse_emitted:
  assumes "parse have_zlib decompressZlib data = Some r"
  shows "list_all (emitted (uint (data ! 6))) (modules r)"
  using assms
proof (cases rule: parse_cases)
  case early
  then show ?thesis by simp
next
  case (walk st2 result1 q result2)
  from walk(5) walk(2) walk(1) have "list_all (emitted (uint (data ! 6))) (modules result2)"
    by (auto simp: walked_def)
  with walk(6) show ?thesis by (auto split: option.splits)
qed

lemma hexCell_no_space: "CHR '' '' \<notin> set (hexCell n i)"
  using hexByte_upper [of "patternBytes n ! i"] by (auto simp: hexCell_def)

lemma toHexString_no_space: "CHR '' '' \<notin> set (toHexString n)"
  by (simp add: toHexString_eq hexCell_no_space)

lemma patternPathHexFrom_unspaced:
  "filter (\<lambda>c. c \<noteq> CHR '' '') (patternPathHexFrom ns out) =
     filter (\<lambda>c. c \<noteq> CHR '' '') out @ concat (map toHexString ns)"
proof (induction ns arbitrary: out)
  case Nil
  then show ?case by simp
next
  case (Cons n ns)
  have "filter (\<lambda>c. c \<noteq> CHR '' '') (toHexString n) = toHexString n"
    using toHexString_no_space [of n] by (auto simp: filter_id_conv)
  then show ?case by (simp add: Cons.IH)
qed

lemma patternPathHex_unspaced:
  "filter (\<lambda>c. c \<noteq> CHR '' '') (patternPathHex m) = concat (map toHexString (patternPath m))"
  by (simp add: patternPathHex_def patternPathHexFrom_unspaced)

lemma hexByte_digits:
  "hexByte b =
     [''0123456789ABCDEF'' ! (unat b div 16), ''0123456789ABCDEF'' ! (unat b mod 16)]"
proof -
  have "unat b < 256" using unsigned_less [of b, where ?'a = nat] by simp
  then have "unat b div 16 < 16" by simp
  then show ?thesis by (simp add: hexByte_def hexDigit_def)
qed

text \<open>
  C9: for a module of a successful parse, the renderings of the nodes of its path, put
  one after the other, have twice as many characters as the nodes have bytes; every node
  has as many mask entries as bytes (1 to 63); and the two characters that stand for byte
  \<open>i\<close> of node \<open>j\<close> are \<open>..\<close> when the byte is variant and else the digit of the
  byte's high half and the digit of its low half, taken from \<open>0123456789ABCDEF\<close>; they
  are \<open>..\<close> only when the byte is variant. (\<open>patternPathHex\<close> is this string with a
  space between the nodes.)
\<close>

theorem pattern_path_hex_rendering:
  assumes "parse have_zlib decompressZlib data = Some r" and "success r"
    and "m \<in> set (modules r)"
  shows "length (concat (map toHexString (patternPath m))) =
           2 * sum_list (map (\<lambda>n. length (patternBytes n)) (patternPath m))
    \<and> (\<forall>j<length (patternPath m).
          length (variantMask (patternPath m ! j)) = length (patternBytes (patternPath m ! j))
          \<and> 1 \<le> length (patternBytes (patternPath m ! j))
          \<and> length (patternBytes (patternPath m ! j)) \<le> 63
          \<and> (\<forall>i<length (patternBytes (patternPath m ! j)).
                take 2 (drop (2 * (sum_list (map (\<lambda>n. length (patternBytes n))
                                      (take j (patternPath m))) + i))
                          (concat (map toHexString (patternPath m)))) =
                  (if variantMask (patternPath m ! j) ! i \<noteq> 0 then ''..''
                   else [''0123456789ABCDEF'' !
                           (unat (patternBytes (patternPath m ! j) ! i) div 16),
                         ''0123456789ABCDEF'' !
                           (unat (patternBytes (patternPath m ! j) ! i) mod 16)])
                \<and> (take 2 (drop (2 * (sum_list (map (\<lambda>n. length (patternBytes n))
                                      (take j (patternPath m))) + i))
                          (concat (map toHexString (patternPath m)))) = ''..''
                   \<longleftrightarrow> variantMask (patternPath m ! j) ! i \<noteq> 0)))
    \<and> filter (\<lambda>c. c \<noteq> CHR '' '') (patternPathHex m) =
        concat (map toHexString (patternPath m))"
proof (intro conjI allI impI)
  show "length (concat (map toHexString (patternPath m))) =
      2 * sum_list (map (\<lambda>n. length (patternBytes n)) (patternPath m))"
    by (rule length_concat_toHexString)
  show "filter (\<lambda>c. c \<noteq> CHR '' '') (patternPathHex m) =
      concat (map toHexString (patternPath m))"
    by (rule patternPathHex_unspaced)
next
  fix j assume j: "j < length (patternPath m)"
  from parse_emitted [OF assms(1)] assms(3) have "emitted (uint (data ! 6)) m"
    by (simp add: list_all_iff)
  then have "list_all nodeOk (patternPath m)" by (simp add: emitted_def)
  with j have ok: "nodeOk (patternPath m ! j)" by (simp add: list_all_length)
  from ok show "length (variantMask (patternPath m ! j)) = length (patternBytes (patternPath m ! j))"
    by (simp add: nodeOk_def)
  from ok show "1 \<le> length (patternBytes (patternPath m ! j))" by (simp add: nodeOk_def)
  from ok show "length (patternBytes (patternPath m ! j)) \<le> 63" by (simp add: nodeOk_def)
  fix i assume i: "i < length (patternBytes (patternPath m ! j))"
  let ?cell = "take 2 (drop (2 * (sum_list (map (\<lambda>n. length (patternBytes n))
                                      (take j (patternPath m))) + i))
                          (concat (map toHexString (patternPath m))))"
  from ok i have "hexCell (patternPath m ! j) i =
      (if variantMask (patternPath m ! j) ! i \<noteq> 0 then ''..''
       else hexByte (patternBytes (patternPath m ! j) ! i))"
    by (simp add: hexCell_def nodeOk_def)
  with concat_node_cell [OF j i]
  have c: "?cell = (if variantMask (patternPath m ! j) ! i \<noteq> 0 then ''..''
                   else hexByte (patternBytes (patternPath m ! j) ! i))"
    by simp
  then show "?cell =
      (if variantMask (patternPath m ! j) ! i \<noteq> 0 then ''..''
       else [''0123456789ABCDEF'' ! (unat (patternBytes (patternPath m ! j) ! i) div 16),
             ''0123456789ABCDEF'' ! (unat (patternBytes (patternPath m ! j) ! i) mod 16)])"
    by (simp only: hexByte_digits)
  from c show "?cell = ''..'' \<longleftrightarrow> variantMask (patternPath m ! j) ! i \<noteq> 0"
    using hexByte_not_dots [of "patternBytes (patternPath m ! j) ! i"] by auto
qed

lemma parse_sigTree:
  "parse False noDecompress sigTree =
     Some \<lparr>success = True, errorMessage = [], libraryName = [],
       header = newFlirtHeader\<lparr>hdr_version := 5, ctype := replicate 12 0\<rparr>,
       modules = [sigTreeModule]\<rparr>"
  by code_simp

theorem pattern_path_hex_rendering_witness:
  "length (concat (map toHexString (patternPath sigTreeModule))) = 2 * (3 + 2)
   \<and> take 2 (drop (2 * (0 + 0)) (concat (map toHexString (patternPath sigTreeModule)))) = ''AA''
   \<and> take 2 (drop (2 * (0 + 1)) (concat (map toHexString (patternPath sigTreeModule)))) = ''..''
   \<and> take 2 (drop (2 * (0 + 2)) (concat (map toHexString (patternPath sigTreeModule)))) = ''BB''
   \<and> take 2 (drop (2 * (3 + 0)) (concat (map toHexString (patternPath sigTreeModule)))) = ''CC''
   \<and> take 2 (drop (2 * (3 + 1)) (concat (map toHexString (patternPath sigTreeModule)))) = ''DD''"
proof -
  have m: "sigTreeModule \<in> set (modules \<lparr>success = True, errorMessage = [], libraryName = [],
       header = newFlirtHeader\<lparr>hdr_version := 5, ctype := replicate 12 0\<rparr>,
       modules = [sigTreeModule]\<rparr>)"
    by simp
  note t = pattern_path_hex_rendering [OF parse_sigTree _ m]
  have p: "patternPath sigTreeModule =
      [\<lparr>patternBytes = [0xAA, 0, 0xBB], variantMask = [0, 1, 0]\<rparr>,
       \<lparr>patternBytes = [0xCC, 0xDD], variantMask = [0, 0]\<rparr>]"
    by (simp add: sigTreeModule_def)
  from t have 1: "length (concat (map toHexString (patternPath sigTreeModule))) = 2 * (3 + 2)"
    by (simp add: p)
  from t have "\<forall>j<length (patternPath sigTreeModule).
      \<forall>i<length (patternBytes (patternPath sigTreeModule ! j)).
        take 2 (drop (2 * (sum_list (map (\<lambda>n. length (patternBytes n))
                                      (take j (patternPath sigTreeModule))) + i))
                          (concat (map toHexString (patternPath sigTreeModule)))) =
          (if variantMask (patternPath sigTreeModule ! j) ! i \<noteq> 0 then ''..''
           else [''0123456789ABCDEF'' !
                   (unat (patternBytes (patternPath sigTreeModule ! j) ! i) div 16),
                 ''0123456789ABCDEF'' !
                   (unat (patternBytes (patternPath sigTreeModule ! j) ! i) mod 16)])"
    by simp
  then have c: "j < 2 \<Longrightarrow> i < length (patternBytes (patternPath sigTreeModule ! j)) \<Longrightarrow>
        take 2 (drop (2 * (sum_list (map (\<lambda>n. length (patternBytes n))
                                      (take j (patternPath sigTreeModule))) + i))
                          (concat (map toHexString (patternPath sigTreeModule)))) =
          (if variantMask (patternPath sigTreeModule ! j) ! i \<noteq> 0 then ''..''
           else [''0123456789ABCDEF'' !
                   (unat (patternBytes (patternPath sigTreeModule ! j) ! i) div 16),
                 ''0123456789ABCDEF'' !
                   (unat (patternBytes (patternPath sigTreeModule ! j) ! i) mod 16)])" for i j
    by (simp add: p)
  from c [of 0 0] have 2: "take 2 (drop (2 * (0 + 0))
      (concat (map toHexString (patternPath sigTreeModule)))) = ''AA''"
    by (simp add: p)
  from c [of 0 1] have 3: "take 2 (drop (2 * (0 + 1))
      (concat (map toHexString (patternPath sigTreeModule)))) = ''..''"
    by (simp add: p)
  from c [of 0 2] have 4: "take 2 (drop (2 * (0 + 2))
      (concat (map toHexString (patternPath sigTreeModule)))) = ''BB''"
    by (simp add: p)
  from c [of 1 0] have 5: "take 2 (drop (2 * (3 + 0))
      (concat (map toHexString (patternPath sigTreeModule)))) = ''CC''"
    by (simp add: p)
  from c [of 1 1] have 6: "take 2 (drop (2 * (3 + 1))
      (concat (map toHexString (patternPath sigTreeModule)))) = ''DD''"
    by (simp add: p)
  from 1 2 3 4 5 6 show ?thesis by blast
qed

section \<open>Flags and the optional blocks of a module\<close>

lemma readModuleTailBytes_count:
  assumes "readModuleTailBytes st md = Some (md', st')"
  shows "\<exists>ts. length ts = nat (fst (readCount st)) \<and> md' = md\<lparr>tailBytes := tailBytes md @ ts\<rparr>"
proof -
  obtain c st1 where c: "readCount st = (c, st1)" by (cases "readCount st")
  with assms have "readModuleTailBytesLoop (nat c) st1 md = Some (md', st')"
    by (auto simp: readModuleTailBytes_def split: if_splits)
  from readModuleTailBytesLoop_frame [OF this] c show ?thesis by simp
qed

lemma readModuleReferencedFunctions_count:
  assumes "readModuleReferencedFunctions st md = Some (md', st')"
  shows "\<exists>rs. length rs = nat (fst (readCount st))
           \<and> md' = md\<lparr>referencedFunctions := referencedFunctions md @ rs\<rparr>"
proof -
  obtain c st1 where c: "readCount st = (c, st1)" by (cases "readCount st")
  with assms have "readModuleReferencedFunctionsLoop (nat c) st1 md = Some (md', st')"
    by (auto simp: readModuleReferencedFunctions_def split: if_splits)
  from readModuleReferencedFunctionsLoop_frame [OF this] c show ?thesis by simp
qed

subsection \<open>The state after a block, and the byte read last\<close>

lemma readByte_justRead:
  "readByte st = (c, st') \<Longrightarrow> \<not> eof st \<Longrightarrow> \<not> err st \<Longrightarrow> \<not> eof st' \<Longrightarrow> justRead st' c"
  by (auto simp: readByte_def justRead_def split: if_splits)

lemma readByte_checked:
  "readByte st = (c, st') \<Longrightarrow> \<not> eof st \<Longrightarrow> \<not> err st \<Longrightarrow> \<not> eof st' \<Longrightarrow>
     pos st < length (body st) \<and> c = body st ! pos st \<and> \<not> err st' \<and> body st' = body st"
  by (auto simp: readByte_def split: if_splits)

lemma readNameLoop_justRead:
  "readNameLoop st c nb = Some (nb', c', st') \<Longrightarrow> justRead st c \<Longrightarrow> justRead st' c'"
proof (induction st c nb rule: readNameLoop.induct)
  case (1 st c nb)
  show ?case
  proof (cases "c \<ge> 0x20 \<and> length nb < FLIRT_NAME_MAX")
    case False
    with "1.prems" show ?thesis by (simp add: readNameLoop.simps)
  next
    case True
    obtain d st1 where r: "readByte st = (d, st1)" by (cases "readByte st")
    from "1.prems" True r have ok: "\<not> (eof st1 \<or> err st1)"
      and rec: "readNameLoop st1 d (nb @ [c]) = Some (nb', c', st')"
      by (auto simp: readNameLoop.simps [of st c nb] split: if_splits)
    from "1.prems"(2) have "\<not> eof st" "\<not> err st" by (simp_all add: justRead_def)
    with r have "justRead st1 d" using ok by (intro readByte_justRead) auto
    with "1.IH" [OF True refl refl r [symmetric] ok rec] show ?thesis .
  qed
qed

lemma readPublicFunction_justRead:
  assumes "readPublicFunction st off = Some (f, fl, st')"
  shows "justRead st' fl"
proof -
  obtain d st1 where d: "readVersioned st = (d, st1)" by (cases "readVersioned st")
  obtain c st2 where c: "readByte st1 = (c, st2)" by (cases "readByte st1")
  obtain c1 st3 where c1: "readByte st2 = (c1, st3)" by (cases "readByte st2")
  from assms d have ok1: "\<not> eof st1" "\<not> err st1"
    by (auto simp: readPublicFunction_def Let_def split: if_splits)
  from assms d c ok1 have ok2: "\<not> eof st2" "\<not> err st2"
    by (auto simp: readPublicFunction_def Let_def split: if_splits)
  have j2: "justRead st2 c" using c ok1 ok2(1) by (rule readByte_justRead)
  show ?thesis
  proof (cases "c < 0x20")
    case True
    with assms d c c1 ok1 ok2 obtain f2 where n: "readNameAndFlags st3 c1 f2 = Some (f, fl, st')"
      and ok3: "\<not> eof st3"
      by (auto simp: readPublicFunction_def Let_def split: if_splits)
    have "justRead st3 c1" using c1 ok2 ok3 by (rule readByte_justRead)
    with n show ?thesis
      by (auto simp: readNameAndFlags_def split: option.splits dest: readNameLoop_justRead)
  next
    case False
    with assms d c ok1 ok2 obtain f2 where "readNameAndFlags st2 c f2 = Some (f, fl, st')"
      by (auto simp: readPublicFunction_def Let_def split: if_splits)
    with j2 show ?thesis
      by (auto simp: readNameAndFlags_def split: option.splits dest: readNameLoop_justRead)
  qed
qed

lemma readModulePublicFunctionsLoop_justRead:
  "readModulePublicFunctionsLoop st md off = Some (md', fl, st') \<Longrightarrow> justRead st' fl"
proof (induction st md off rule: readModulePublicFunctionsLoop.induct)
  case (1 st md off)
  from "1.prems" obtain f flags st1 where r: "readPublicFunction st off = Some (f, flags, st1)"
    by (auto simp: readModulePublicFunctionsLoop.simps [of st md off] split: option.splits)
  show ?case
  proof (cases "flags AND IDASIG_PARSE_MORE_PUBLIC_NAMES \<noteq> 0")
    case True
    with "1.prems" r have
      "readModulePublicFunctionsLoop st1 (md\<lparr>publicFunctions := publicFunctions md @ [f]\<rparr>)
         (offset f) = Some (md', fl, st')"
      by (simp add: readModulePublicFunctionsLoop.simps [of st md off])
    from "1.IH" [OF r refl refl refl True this] show ?thesis .
  next
    case False
    with "1.prems" r have "st' = st1" "fl = flags"
      by (simp_all add: readModulePublicFunctionsLoop.simps [of st md off])
    with readPublicFunction_justRead [OF r] show ?thesis by simp
  qed
qed

lemma readModuleTailBytesLoop_clear:
  "readModuleTailBytesLoop n st md = Some (md', st') \<Longrightarrow> \<not> eof st \<and> \<not> err st \<Longrightarrow>
     \<not> eof st' \<and> \<not> err st'"
proof (induction n arbitrary: st md)
  case 0
  then show ?case by simp
next
  case (Suc n)
  obtain off st1 where a: "readVersioned st = (off, st1)" by (cases "readVersioned st")
  obtain v st2 where b: "readByte st1 = (v, st2)" by (cases "readByte st1")
  from Suc.prems a b obtain md1 where "readModuleTailBytesLoop n st2 md1 = Some (md', st')"
    and "\<not> eof st2 \<and> \<not> err st2"
    by (auto simp: Let_def split: if_splits)
  then show ?case by (rule Suc.IH)
qed

lemma readRefNameLoop_clear:
  "readRefNameLoop n st nb = Some (nb', st') \<Longrightarrow> \<not> eof st \<and> \<not> err st \<Longrightarrow>
     \<not> eof st' \<and> \<not> err st'"
proof (induction n arbitrary: st nb)
  case 0
  then show ?case by simp
next
  case (Suc n)
  obtain b st1 where b: "readByte st = (b, st1)" by (cases "readByte st")
  from Suc.prems b have "readRefNameLoop n st1 (nb @ [b]) = Some (nb', st')"
    and "\<not> eof st1 \<and> \<not> err st1"
    by (auto simp: Let_def split: if_splits)
  then show ?case by (rule Suc.IH)
qed

lemma readRefNameLen_clear:
  "readRefNameLen st = Some (n, st') \<Longrightarrow> \<not> eof st' \<and> \<not> err st'"
  by (auto simp: readRefNameLen_def Let_def split: if_splits prod.splits)

lemma readModuleReferencedFunctionsLoop_clear:
  "readModuleReferencedFunctionsLoop n st md = Some (md', st') \<Longrightarrow> \<not> eof st \<and> \<not> err st \<Longrightarrow>
     \<not> eof st' \<and> \<not> err st'"
proof (induction n arbitrary: st md)
  case 0
  then show ?case by simp
next
  case (Suc n)
  obtain off st1 where a: "readVersioned st = (off, st1)" by (cases "readVersioned st")
  from Suc.prems a obtain nameLen st2 where b: "readRefNameLen st1 = Some (nameLen, st2)"
    by (auto simp: Let_def split: if_splits option.splits)
  from Suc.prems a b obtain nameBytes st3 where
    c: "readRefNameLoop (unat nameLen) st2 [] = Some (nameBytes, st3)"
    by (auto simp: Let_def split: if_splits option.splits)
  from Suc.prems a b c obtain md1 where
    d: "readModuleReferencedFunctionsLoop n st3 md1 = Some (md', st')"
    by (auto simp: Let_def split: if_splits)
  have "\<not> eof st3 \<and> \<not> err st3"
    using readRefNameLoop_clear [OF c] readRefNameLen_clear [OF b] by simp
  with d show ?case by (rule Suc.IH)
qed

text \<open>
  A block that is read: how many entries it appends, where its count byte stands, and the
  state it leaves.
\<close>

lemma readCount_byte:
  assumes "readCount st = (c, st1)" and "\<not> eof st" and "\<not> err st" and "\<not> eof st1"
  shows "\<not> err st1 \<and> body st1 = body st
    \<and> nat c = (if version st < 8 then 1 else unat (body st ! pos st))
    \<and> (8 \<le> version st \<longrightarrow> pos st < length (body st))"
proof (cases "version st < 8")
  case True
  with assms show ?thesis by (auto simp: readCount_def)
next
  case False
  obtain b st2 where b: "readByte st = (b, st2)" by (cases "readByte st")
  with assms(1) False have c: "c = uint b" "st1 = st2"
    by (auto simp: readCount_def)
  from readByte_checked [OF b assms(2,3)] assms(4) c False show ?thesis by simp
qed

lemma readModuleTailBytes_block:
  assumes "readModuleTailBytes st md = Some (md', st')" and "\<not> eof st" and "\<not> err st"
  shows "length (tailBytes md') =
           length (tailBytes md) + (if version st < 8 then 1 else unat (body st ! pos st))
    \<and> (8 \<le> version st \<longrightarrow> pos st < length (body st))
    \<and> referencedFunctions md' = referencedFunctions md
    \<and> \<not> eof st' \<and> \<not> err st' \<and> body st' = body st"
proof -
  obtain c st1 where c: "readCount st = (c, st1)" by (cases "readCount st")
  with assms(1) have ok: "\<not> eof st1" "\<not> err st1"
    and l: "readModuleTailBytesLoop (nat c) st1 md = Some (md', st')"
    by (auto simp: readModuleTailBytes_def split: if_splits)
  note b = readCount_byte [OF c assms(2,3) ok(1)]
  from readModuleTailBytesLoop_frame [OF l] obtain ts where
    ts: "length ts = nat c" "md' = md\<lparr>tailBytes := tailBytes md @ ts\<rparr>" by blast
  have "\<not> eof st' \<and> \<not> err st'" using readModuleTailBytesLoop_clear [OF l] ok by simp
  moreover have "body st' = body st1"
    using readModuleTailBytesLoop_advances [OF l] by (simp add: advances_def)
  ultimately show ?thesis using b ts by simp
qed

lemma readModuleReferencedFunctions_block:
  assumes "readModuleReferencedFunctions st md = Some (md', st')" and "\<not> eof st"
    and "\<not> err st"
  shows "length (referencedFunctions md') =
           length (referencedFunctions md)
             + (if version st < 8 then 1 else unat (body st ! pos st))
    \<and> (8 \<le> version st \<longrightarrow> pos st < length (body st))
    \<and> tailBytes md' = tailBytes md"
proof -
  obtain c st1 where c: "readCount st = (c, st1)" by (cases "readCount st")
  with assms(1) have ok: "\<not> eof st1" "\<not> err st1"
    and l: "readModuleReferencedFunctionsLoop (nat c) st1 md = Some (md', st')"
    by (auto simp: readModuleReferencedFunctions_def split: if_splits)
  note b = readCount_byte [OF c assms(2,3) ok(1)]
  from readModuleReferencedFunctionsLoop_frame [OF l] obtain rs where
    "length rs = nat c" "md' = md\<lparr>referencedFunctions := referencedFunctions md @ rs\<rparr>"
    by blast
  with b show ?thesis by simp
qed

text \<open>A round of the inner loop of \<open>parseLeaf\<close>, block by block.\<close>

lemma parseModule_blocks:
  assumes "parseModule st path cl crc = Some (m, fl, st')"
  shows "\<exists>len st1 md2 st2 md3 st3.
      readVersioned st = (len, st1)
      \<and> readModulePublicFunctions st1
           (newFlirtModule\<lparr>patternPath := path, crcLength := ucast cl, crc16 := ucast crc,
              modLength := len\<rparr>) = Some (md2, fl, st2)
      \<and> (if fl AND IDASIG_PARSE_READ_TAIL_BYTES \<noteq> 0
          then readModuleTailBytes st2 md2 else Some (md2, st2)) = Some (md3, st3)
      \<and> body st2 = body st \<and> body st3 = body st
      \<and> 0 < pos st2 \<and> pos st2 \<le> length (body st) \<and> fl = body st ! (pos st2 - 1)
      \<and> length (tailBytes m) =
          (if fl AND IDASIG_PARSE_READ_TAIL_BYTES = 0 then 0
           else if version st < 8 then 1 else unat (body st ! pos st2))
      \<and> length (referencedFunctions m) =
          (if fl AND IDASIG_PARSE_READ_REFERENCED_FUNCTIONS = 0 then 0
           else if version st < 8 then 1 else unat (body st ! pos st3))
      \<and> (fl AND IDASIG_PARSE_READ_TAIL_BYTES \<noteq> 0 \<and> 8 \<le> version st \<longrightarrow>
            pos st2 < length (body st))
      \<and> (fl AND IDASIG_PARSE_READ_REFERENCED_FUNCTIONS \<noteq> 0 \<and> 8 \<le> version st \<longrightarrow>
            pos st3 < length (body st))"
proof -
  from assms obtain len st1 md2 st2 md3 st3 where
    a: "readVersioned st = (len, st1)" and ok1: "\<not> eof st1" "\<not> err st1"
    and b: "readModulePublicFunctions st1
       (newFlirtModule\<lparr>patternPath := path, crcLength := ucast cl, crc16 := ucast crc,
          modLength := len\<rparr>) = Some (md2, fl, st2)"
    and c: "(if fl AND IDASIG_PARSE_READ_TAIL_BYTES \<noteq> 0
      then readModuleTailBytes st2 md2 else Some (md2, st2)) = Some (md3, st3)"
    and d: "(if fl AND IDASIG_PARSE_READ_REFERENCED_FUNCTIONS \<noteq> 0
      then readModuleReferencedFunctions st3 md3 else Some (md3, st3)) = Some (m, st')"
    by (rule parseModule_steps)
  have e2: "tailBytes md2 = []" "referencedFunctions md2 = []"
    using b by (auto simp: readModulePublicFunctions_def newFlirtModule_def
        dest!: readModulePublicFunctionsLoop_frame)
  have j: "justRead st2 fl"
    using b by (auto simp: readModulePublicFunctions_def
        dest: readModulePublicFunctionsLoop_justRead)
  have a2: "advances st st2"
    using readVersioned_advances [OF a] b
    by (auto simp: readModulePublicFunctions_def
        dest!: readModulePublicFunctionsLoop_consumed consumed_advances
        intro: advances_trans)
  then have v2: "version st2 = version st" and b2: "body st2 = body st"
    by (simp_all add: advances_def)
  have t: "length (tailBytes md3) =
          (if fl AND IDASIG_PARSE_READ_TAIL_BYTES = 0 then 0
           else if version st < 8 then 1 else unat (body st ! pos st2))
      \<and> (fl AND IDASIG_PARSE_READ_TAIL_BYTES \<noteq> 0 \<and> 8 \<le> version st \<longrightarrow>
            pos st2 < length (body st))
      \<and> referencedFunctions md3 = []
      \<and> \<not> eof st3 \<and> \<not> err st3 \<and> body st3 = body st \<and> version st3 = version st"
  proof (cases "fl AND IDASIG_PARSE_READ_TAIL_BYTES = 0")
    case True
    with c e2 j v2 b2 show ?thesis by (auto simp: justRead_def)
  next
    case False
    with c have r: "readModuleTailBytes st2 md2 = Some (md3, st3)" by simp
    from j have "\<not> eof st2" "\<not> err st2" by (simp_all add: justRead_def)
    from readModuleTailBytes_block [OF r this] readModuleTailBytes_advances [OF r]
      False e2 v2 b2
    show ?thesis by (auto simp: advances_def)
  qed
  have r: "length (referencedFunctions m) =
          (if fl AND IDASIG_PARSE_READ_REFERENCED_FUNCTIONS = 0 then 0
           else if version st < 8 then 1 else unat (body st ! pos st3))
      \<and> (fl AND IDASIG_PARSE_READ_REFERENCED_FUNCTIONS \<noteq> 0 \<and> 8 \<le> version st \<longrightarrow>
            pos st3 < length (body st))
      \<and> tailBytes m = tailBytes md3"
  proof (cases "fl AND IDASIG_PARSE_READ_REFERENCED_FUNCTIONS = 0")
    case True
    with d t show ?thesis by auto
  next
    case False
    with d have q: "readModuleReferencedFunctions st3 md3 = Some (m, st')" by simp
    from t have "\<not> eof st3" "\<not> err st3" by simp_all
    from readModuleReferencedFunctions_block [OF q this] False t show ?thesis by auto
  qed
  from j b2 have jj: "0 < pos st2 \<and> pos st2 \<le> length (body st) \<and> fl = body st ! (pos st2 - 1)"
    by (simp add: justRead_def)
  from a b c b2 jj t r show ?thesis
    apply (rule_tac x = len in exI)
    apply (rule_tac x = st1 in exI)
    apply (rule_tac x = md2 in exI)
    apply (rule_tac x = st2 in exI)
    apply (rule_tac x = md3 in exI)
    apply (rule_tac x = st3 in exI)
    apply simp
    done
qed

lemma emitted_module:
  assumes "parse have_zlib decompressZlib data = Some r" and "m \<in> set (modules r)"
  shows "\<exists>st cl crc fl st'.
           version st = uint (data ! 6)
           \<and> parseModule st (patternPath m) cl crc = Some (m, fl, st')"
  using parse_emitted [OF assms(1)] assms(2) by (auto simp: list_all_iff emitted_def)

text \<open>
  C3 as the code has it. A module \<open>m\<close> of a successful parse was returned by a round of
  the inner loop of \<open>parseLeaf\<close> (lines 353-370) in a state \<open>st\<close> of the file's version,
  with the flags byte \<open>fl\<close> of its function list. In every such round, \<open>st2\<close> is the
  state after the function list (line 364) and \<open>st3\<close> the state after the tail-byte block
  (lines 365-367), both over the buffer of \<open>st\<close>; \<open>fl\<close> is the buffer's byte before the cursor
  of \<open>st2\<close>. The tail bytes of \<open>m\<close> are none when bit \<open>0x02\<close> of \<open>fl\<close> is clear, exactly
  one below version 8, and from version 8 on as many as the count byte says, which is the
  buffer's byte at the cursor of \<open>st2\<close>; the referenced functions likewise with bit
  \<open>0x04\<close> and the byte at the cursor of \<open>st3\<close>. So a block is non-empty if and only if its
  bit is set and, from version 8 on, its count byte is not 0.
\<close>

theorem flag_fidelity:
  assumes "parse have_zlib decompressZlib data = Some r" and "success r"
    and "m \<in> set (modules r)"
  shows "(\<exists>st cl crc fl st'.
            version st = uint (data ! 6)
            \<and> parseModule st (patternPath m) cl crc = Some (m, fl, st'))
    \<and> (\<forall>st cl crc fl st'.
          parseModule st (patternPath m) cl crc = Some (m, fl, st') \<longrightarrow>
            (\<exists>len st1 md2 st2 md3 st3.
                readVersioned st = (len, st1)
                \<and> readModulePublicFunctions st1
                     (newFlirtModule\<lparr>patternPath := patternPath m, crcLength := ucast cl,
                        crc16 := ucast crc, modLength := len\<rparr>) = Some (md2, fl, st2)
                \<and> (if fl AND 0x02 \<noteq> 0
                    then readModuleTailBytes st2 md2 else Some (md2, st2)) = Some (md3, st3)
                \<and> body st2 = body st \<and> body st3 = body st
                \<and> 0 < pos st2 \<and> pos st2 \<le> length (body st)
                \<and> fl = body st ! (pos st2 - 1)
                \<and> length (tailBytes m) =
                    (if fl AND 0x02 = 0 then 0
                     else if version st < 8 then 1 else unat (body st ! pos st2))
                \<and> length (referencedFunctions m) =
                    (if fl AND 0x04 = 0 then 0
                     else if version st < 8 then 1 else unat (body st ! pos st3))
                \<and> (fl AND 0x02 \<noteq> 0 \<and> 8 \<le> version st \<longrightarrow> pos st2 < length (body st))
                \<and> (fl AND 0x04 \<noteq> 0 \<and> 8 \<le> version st \<longrightarrow> pos st3 < length (body st))
                \<and> (tailBytes m \<noteq> [] \<longleftrightarrow>
                      fl AND 0x02 \<noteq> 0 \<and> (version st < 8 \<or> body st ! pos st2 \<noteq> 0))
                \<and> (referencedFunctions m \<noteq> [] \<longleftrightarrow>
                      fl AND 0x04 \<noteq> 0 \<and> (version st < 8 \<or> body st ! pos st3 \<noteq> 0)))
            \<and> (tailBytes m \<noteq> [] \<longrightarrow> fl AND 0x02 \<noteq> 0)
            \<and> (referencedFunctions m \<noteq> [] \<longrightarrow> fl AND 0x04 \<noteq> 0)
            \<and> (version st < 8 \<longrightarrow>
                  (fl AND 0x02 \<noteq> 0 \<longrightarrow> length (tailBytes m) = 1)
                  \<and> (fl AND 0x04 \<noteq> 0 \<longrightarrow> length (referencedFunctions m) = 1)))"
proof (rule conjI)
  show "\<exists>st cl crc fl st'.
      version st = uint (data ! 6) \<and> parseModule st (patternPath m) cl crc = Some (m, fl, st')"
    using assms(1,3) by (rule emitted_module)
next
  show "\<forall>st cl crc fl st'.
          parseModule st (patternPath m) cl crc = Some (m, fl, st') \<longrightarrow>
            (\<exists>len st1 md2 st2 md3 st3.
                readVersioned st = (len, st1)
                \<and> readModulePublicFunctions st1
                     (newFlirtModule\<lparr>patternPath := patternPath m, crcLength := ucast cl,
                        crc16 := ucast crc, modLength := len\<rparr>) = Some (md2, fl, st2)
                \<and> (if fl AND 0x02 \<noteq> 0
                    then readModuleTailBytes st2 md2 else Some (md2, st2)) = Some (md3, st3)
                \<and> body st2 = body st \<and> body st3 = body st
                \<and> 0 < pos st2 \<and> pos st2 \<le> length (body st)
                \<and> fl = body st ! (pos st2 - 1)
                \<and> length (tailBytes m) =
                    (if fl AND 0x02 = 0 then 0
                     else if version st < 8 then 1 else unat (body st ! pos st2))
                \<and> length (referencedFunctions m) =
                    (if fl AND 0x04 = 0 then 0
                     else if version st < 8 then 1 else unat (body st ! pos st3))
                \<and> (fl AND 0x02 \<noteq> 0 \<and> 8 \<le> version st \<longrightarrow> pos st2 < length (body st))
                \<and> (fl AND 0x04 \<noteq> 0 \<and> 8 \<le> version st \<longrightarrow> pos st3 < length (body st))
                \<and> (tailBytes m \<noteq> [] \<longleftrightarrow>
                      fl AND 0x02 \<noteq> 0 \<and> (version st < 8 \<or> body st ! pos st2 \<noteq> 0))
                \<and> (referencedFunctions m \<noteq> [] \<longleftrightarrow>
                      fl AND 0x04 \<noteq> 0 \<and> (version st < 8 \<or> body st ! pos st3 \<noteq> 0)))
            \<and> (tailBytes m \<noteq> [] \<longrightarrow> fl AND 0x02 \<noteq> 0)
            \<and> (referencedFunctions m \<noteq> [] \<longrightarrow> fl AND 0x04 \<noteq> 0)
            \<and> (version st < 8 \<longrightarrow>
                  (fl AND 0x02 \<noteq> 0 \<longrightarrow> length (tailBytes m) = 1)
                  \<and> (fl AND 0x04 \<noteq> 0 \<longrightarrow> length (referencedFunctions m) = 1))"
  proof (intro allI impI)
    fix st cl crc fl st'
    assume p: "parseModule st (patternPath m) cl crc = Some (m, fl, st')"
    from parseModule_blocks [OF p, unfolded IDASIG_PARSE_READ_TAIL_BYTES_def
      IDASIG_PARSE_READ_REFERENCED_FUNCTIONS_def]
    obtain len st1 md2 st2 md3 st3 where
      a: "readVersioned st = (len, st1)"
      and b: "readModulePublicFunctions st1
         (newFlirtModule\<lparr>patternPath := patternPath m, crcLength := ucast cl,
            crc16 := ucast crc, modLength := len\<rparr>) = Some (md2, fl, st2)"
      and c: "(if fl AND 0x02 \<noteq> 0
          then readModuleTailBytes st2 md2 else Some (md2, st2)) = Some (md3, st3)"
      and bd: "body st2 = body st" "body st3 = body st"
      and ps: "0 < pos st2" "pos st2 \<le> length (body st)" "fl = body st ! (pos st2 - 1)"
      and lt: "length (tailBytes m) =
          (if fl AND 0x02 = 0 then 0
           else if version st < 8 then 1 else unat (body st ! pos st2))"
      and lr: "length (referencedFunctions m) =
          (if fl AND 0x04 = 0 then 0
           else if version st < 8 then 1 else unat (body st ! pos st3))"
      and it: "fl AND 0x02 \<noteq> 0 \<and> 8 \<le> version st \<longrightarrow> pos st2 < length (body st)"
      and ir: "fl AND 0x04 \<noteq> 0 \<and> 8 \<le> version st \<longrightarrow> pos st3 < length (body st)"
      by blast
    have nt: "tailBytes m \<noteq> [] \<longleftrightarrow>
        fl AND 0x02 \<noteq> 0 \<and> (version st < 8 \<or> body st ! pos st2 \<noteq> 0)"
    proof -
      have "tailBytes m \<noteq> [] \<longleftrightarrow> length (tailBytes m) \<noteq> 0" by simp
      also have "\<dots> \<longleftrightarrow> fl AND 0x02 \<noteq> 0 \<and> (version st < 8 \<or> body st ! pos st2 \<noteq> 0)"
        unfolding lt by (simp add: unat_gt_0)
      finally show ?thesis .
    qed
    have nr: "referencedFunctions m \<noteq> [] \<longleftrightarrow>
        fl AND 0x04 \<noteq> 0 \<and> (version st < 8 \<or> body st ! pos st3 \<noteq> 0)"
    proof -
      have "referencedFunctions m \<noteq> [] \<longleftrightarrow> length (referencedFunctions m) \<noteq> 0" by simp
      also have "\<dots> \<longleftrightarrow> fl AND 0x04 \<noteq> 0 \<and> (version st < 8 \<or> body st ! pos st3 \<noteq> 0)"
        unfolding lr by (simp add: unat_gt_0)
      finally show ?thesis .
    qed
    have old: "(tailBytes m \<noteq> [] \<longrightarrow> fl AND 0x02 \<noteq> 0)
        \<and> (referencedFunctions m \<noteq> [] \<longrightarrow> fl AND 0x04 \<noteq> 0)
        \<and> (version st < 8 \<longrightarrow>
              (fl AND 0x02 \<noteq> 0 \<longrightarrow> length (tailBytes m) = 1)
              \<and> (fl AND 0x04 \<noteq> 0 \<longrightarrow> length (referencedFunctions m) = 1))"
      using nt nr lt lr by simp
    have new: "\<exists>len st1 md2 st2 md3 st3.
                readVersioned st = (len, st1)
                \<and> readModulePublicFunctions st1
                     (newFlirtModule\<lparr>patternPath := patternPath m, crcLength := ucast cl,
                        crc16 := ucast crc, modLength := len\<rparr>) = Some (md2, fl, st2)
                \<and> (if fl AND 0x02 \<noteq> 0
                    then readModuleTailBytes st2 md2 else Some (md2, st2)) = Some (md3, st3)
                \<and> body st2 = body st \<and> body st3 = body st
                \<and> 0 < pos st2 \<and> pos st2 \<le> length (body st)
                \<and> fl = body st ! (pos st2 - 1)
                \<and> length (tailBytes m) =
                    (if fl AND 0x02 = 0 then 0
                     else if version st < 8 then 1 else unat (body st ! pos st2))
                \<and> length (referencedFunctions m) =
                    (if fl AND 0x04 = 0 then 0
                     else if version st < 8 then 1 else unat (body st ! pos st3))
                \<and> (fl AND 0x02 \<noteq> 0 \<and> 8 \<le> version st \<longrightarrow> pos st2 < length (body st))
                \<and> (fl AND 0x04 \<noteq> 0 \<and> 8 \<le> version st \<longrightarrow> pos st3 < length (body st))
                \<and> (tailBytes m \<noteq> [] \<longleftrightarrow>
                      fl AND 0x02 \<noteq> 0 \<and> (version st < 8 \<or> body st ! pos st2 \<noteq> 0))
                \<and> (referencedFunctions m \<noteq> [] \<longleftrightarrow>
                      fl AND 0x04 \<noteq> 0 \<and> (version st < 8 \<or> body st ! pos st3 \<noteq> 0))"
      using a b c bd ps lt lr it ir nt nr by blast
    from new old show "(\<exists>len st1 md2 st2 md3 st3.
                readVersioned st = (len, st1)
                \<and> readModulePublicFunctions st1
                     (newFlirtModule\<lparr>patternPath := patternPath m, crcLength := ucast cl,
                        crc16 := ucast crc, modLength := len\<rparr>) = Some (md2, fl, st2)
                \<and> (if fl AND 0x02 \<noteq> 0
                    then readModuleTailBytes st2 md2 else Some (md2, st2)) = Some (md3, st3)
                \<and> body st2 = body st \<and> body st3 = body st
                \<and> 0 < pos st2 \<and> pos st2 \<le> length (body st)
                \<and> fl = body st ! (pos st2 - 1)
                \<and> length (tailBytes m) =
                    (if fl AND 0x02 = 0 then 0
                     else if version st < 8 then 1 else unat (body st ! pos st2))
                \<and> length (referencedFunctions m) =
                    (if fl AND 0x04 = 0 then 0
                     else if version st < 8 then 1 else unat (body st ! pos st3))
                \<and> (fl AND 0x02 \<noteq> 0 \<and> 8 \<le> version st \<longrightarrow> pos st2 < length (body st))
                \<and> (fl AND 0x04 \<noteq> 0 \<and> 8 \<le> version st \<longrightarrow> pos st3 < length (body st))
                \<and> (tailBytes m \<noteq> [] \<longleftrightarrow>
                      fl AND 0x02 \<noteq> 0 \<and> (version st < 8 \<or> body st ! pos st2 \<noteq> 0))
                \<and> (referencedFunctions m \<noteq> [] \<longleftrightarrow>
                      fl AND 0x04 \<noteq> 0 \<and> (version st < 8 \<or> body st ! pos st3 \<noteq> 0)))
            \<and> (tailBytes m \<noteq> [] \<longrightarrow> fl AND 0x02 \<noteq> 0)
            \<and> (referencedFunctions m \<noteq> [] \<longrightarrow> fl AND 0x04 \<noteq> 0)
            \<and> (version st < 8 \<longrightarrow>
                  (fl AND 0x02 \<noteq> 0 \<longrightarrow> length (tailBytes m) = 1)
                  \<and> (fl AND 0x04 \<noteq> 0 \<longrightarrow> length (referencedFunctions m) = 1))"
      by (rule conjI)
  qed
qed

lemma parse_sigEmptyTail:
  "parse False noDecompress sigEmptyTail =
     Some \<lparr>success = True, errorMessage = [], libraryName = [],
       header = newFlirtHeader\<lparr>hdr_version := 8, ctype := replicate 12 0\<rparr>,
       modules = [sigEmptyTailModule]\<rparr>"
  by code_simp

lemma parseModule_sigEmptyTail:
  "parseModule \<lparr>body = sigEmptyTail, pos = 47, version = 8, eof = False, err = False\<rparr>
     [] 4 0x1234 =
   Some (sigEmptyTailModule, 0x02,
         \<lparr>body = sigEmptyTail, pos = 54, version = 8, eof = False, err = False\<rparr>)"
  by code_simp

theorem flag_fidelity_counterexample:
  "map_option success (parse False noDecompress sigEmptyTail) = Some True
   \<and> map_option modules (parse False noDecompress sigEmptyTail) = Some [sigEmptyTailModule]
   \<and> parseModule \<lparr>body = sigEmptyTail, pos = 47, version = 8, eof = False, err = False\<rparr>
        [] 4 0x1234 =
      Some (sigEmptyTailModule, 0x02,
            \<lparr>body = sigEmptyTail, pos = 54, version = 8, eof = False, err = False\<rparr>)
   \<and> (0x02 :: byte) AND 0x02 \<noteq> 0
   \<and> tailBytes sigEmptyTailModule = []"
  by (simp add: parse_sigEmptyTail parseModule_sigEmptyTail) (simp add: sigEmptyTailModule_def)

lemma parseModule_sigTree:
  "parseModule \<lparr>body = sigTree, pos = 51, version = 5, eof = False, err = False\<rparr>
     (patternPath sigTreeModule) 4 0x1234 =
   Some (sigTreeModule, 0x06,
         \<lparr>body = sigTree, pos = 68, version = 5, eof = False, err = False\<rparr>)"
  by code_simp

lemma parse_sigCounted:
  "parse False noDecompress sigCounted =
     Some \<lparr>success = True, errorMessage = [], libraryName = [],
       header = newFlirtHeader\<lparr>hdr_version := 8, ctype := replicate 12 0\<rparr>,
       modules = [sigCountedModule]\<rparr>"
  by code_simp

lemma parseModule_sigCounted:
  "parseModule \<lparr>body = sigCounted, pos = 47, version = 8, eof = False, err = False\<rparr>
     (patternPath sigCountedModule) 4 0x1234 =
   Some (sigCountedModule, 0x06,
         \<lparr>body = sigCounted, pos = 63, version = 8, eof = False, err = False\<rparr>)"
  by code_simp

lemma readVersioned_sigCounted:
  "readVersioned \<lparr>body = sigCounted, pos = 47, version = 8, eof = False, err = False\<rparr> =
     (5, \<lparr>body = sigCounted, pos = 48, version = 8, eof = False, err = False\<rparr>)"
  by code_simp

lemma readModulePublicFunctions_sigCounted:
  "readModulePublicFunctions
     \<lparr>body = sigCounted, pos = 48, version = 8, eof = False, err = False\<rparr>
     (newFlirtModule\<lparr>patternPath := patternPath sigCountedModule,
        crcLength := ucast (4 :: byte), crc16 := ucast (0x1234 :: 16 word), modLength := 5\<rparr>) =
   Some (sigCountedModule\<lparr>tailBytes := [], referencedFunctions := []\<rparr>, 0x06,
         \<lparr>body = sigCounted, pos = 53, version = 8, eof = False, err = False\<rparr>)"
  by code_simp

lemma readModuleTailBytes_sigCounted:
  "readModuleTailBytes
     \<lparr>body = sigCounted, pos = 53, version = 8, eof = False, err = False\<rparr>
     (sigCountedModule\<lparr>tailBytes := [], referencedFunctions := []\<rparr>) =
   Some (sigCountedModule\<lparr>referencedFunctions := []\<rparr>,
         \<lparr>body = sigCounted, pos = 58, version = 8, eof = False, err = False\<rparr>)"
  by code_simp

lemma sigCounted_bytes:
  "sigCounted ! 52 = 0x06 \<and> sigCounted ! 53 = 2 \<and> sigCounted ! 58 = 1"
  by code_simp

theorem flag_fidelity_witness:
  "(\<exists>st cl crc fl st'.
      version st = 5 \<and> parseModule st (patternPath sigTreeModule) cl crc
        = Some (sigTreeModule, fl, st'))
   \<and> length (tailBytes sigTreeModule) = 1 \<and> length (referencedFunctions sigTreeModule) = 1
   \<and> (\<exists>st cl crc fl st'.
      version st = 8 \<and> parseModule st (patternPath sigCountedModule) cl crc
        = Some (sigCountedModule, fl, st'))
   \<and> length (tailBytes sigCountedModule) = unat (sigCounted ! 53) \<and> sigCounted ! 53 = 2
   \<and> length (referencedFunctions sigCountedModule) = unat (sigCounted ! 58)
   \<and> sigCounted ! 58 = 1"
proof -
  let ?r5 = "\<lparr>success = True, errorMessage = [], libraryName = [],
       header = newFlirtHeader\<lparr>hdr_version := 5, ctype := replicate 12 0\<rparr>,
       modules = [sigTreeModule]\<rparr>"
  let ?r8 = "\<lparr>success = True, errorMessage = [], libraryName = [],
       header = newFlirtHeader\<lparr>hdr_version := 8, ctype := replicate 12 0\<rparr>,
       modules = [sigCountedModule]\<rparr>"
  have s5: "success ?r5" and m5: "sigTreeModule \<in> set (modules ?r5)" by simp_all
  have s8: "success ?r8" and m8: "sigCountedModule \<in> set (modules ?r8)" by simp_all
  have v5: "uint (sigTree ! 6) = 5" by (simp add: sigTree_def header5_def IDASGN_def)
  have v8: "uint (sigCounted ! 6) = 8" by (simp add: sigCounted_def header8_def IDASGN_def)
  note f5 = flag_fidelity [OF parse_sigTree s5 m5]
  note f8 = flag_fidelity [OF parse_sigCounted s8 m8]
  from f5 v5 have e5: "\<exists>st cl crc fl st'.
      version st = 5 \<and> parseModule st (patternPath sigTreeModule) cl crc
        = Some (sigTreeModule, fl, st')"
    by simp
  from f8 v8 have e8: "\<exists>st cl crc fl st'.
      version st = 8 \<and> parseModule st (patternPath sigCountedModule) cl crc
        = Some (sigCountedModule, fl, st')"
    by simp
  note g5 = f5 [THEN conjunct2, rule_format, OF parseModule_sigTree, THEN conjunct2]
  from g5 have l5: "length (tailBytes sigTreeModule) = 1"
    "length (referencedFunctions sigTreeModule) = 1"
    by simp_all
  let ?s47 = "\<lparr>body = sigCounted, pos = 47, version = 8, eof = False, err = False\<rparr>"
  let ?s48 = "\<lparr>body = sigCounted, pos = 48, version = 8, eof = False, err = False\<rparr>"
  let ?s53 = "\<lparr>body = sigCounted, pos = 53, version = 8, eof = False, err = False\<rparr>"
  let ?s58 = "\<lparr>body = sigCounted, pos = 58, version = 8, eof = False, err = False\<rparr>"
  from f8 [THEN conjunct2, rule_format, OF parseModule_sigCounted, THEN conjunct1]
  obtain len st1 md2 st2 md3 st3 where
    a: "readVersioned ?s47 = (len, st1)"
    and b: "readModulePublicFunctions st1
         (newFlirtModule\<lparr>patternPath := patternPath sigCountedModule,
            crcLength := ucast (4 :: byte), crc16 := ucast (0x1234 :: 16 word),
            modLength := len\<rparr>) = Some (md2, 0x06, st2)"
    and c: "(if (0x06 :: byte) AND 0x02 \<noteq> 0
          then readModuleTailBytes st2 md2 else Some (md2, st2)) = Some (md3, st3)"
    and lt: "length (tailBytes sigCountedModule) =
          (if (0x06 :: byte) AND 0x02 = 0 then 0
           else if version ?s47 < 8 then 1 else unat (body ?s47 ! pos st2))"
    and lr: "length (referencedFunctions sigCountedModule) =
          (if (0x06 :: byte) AND 0x04 = 0 then 0
           else if version ?s47 < 8 then 1 else unat (body ?s47 ! pos st3))"
    by blast
  from a have a': "len = 5" "st1 = ?s48" unfolding readVersioned_sigCounted by simp_all
  from b have b': "md2 = sigCountedModule\<lparr>tailBytes := [], referencedFunctions := []\<rparr>"
    "st2 = ?s53"
    unfolding a' readModulePublicFunctions_sigCounted by simp_all
  have "(0x06 :: byte) AND 0x02 \<noteq> 0" "(0x06 :: byte) AND 0x04 \<noteq> 0" by simp_all
  with c have "readModuleTailBytes st2 md2 = Some (md3, st3)" by simp
  then have c': "st3 = ?s58" unfolding b' readModuleTailBytes_sigCounted by simp
  from lt have t8: "length (tailBytes sigCountedModule) = unat (sigCounted ! 53)"
    unfolding b' by simp
  from lr have r8: "length (referencedFunctions sigCountedModule) = unat (sigCounted ! 58)"
    unfolding c' by simp
  from e5 l5 e8 t8 r8 sigCounted_bytes show ?thesis by blast
qed

section \<open>The offsets of the public functions\<close>

lemma length_runningSums [simp]: "length (runningSums off ds) = length ds"
  by (induction ds arbitrary: off) simp_all

lemma length_sumsFrom [simp]: "length (sumsFrom a ds) = length ds"
  by (induction ds arbitrary: a) simp_all

lemma sumsFrom_nth: "i < length ds \<Longrightarrow> sumsFrom a ds ! i = a + sum_list (take (Suc i) ds)"
proof (induction ds arbitrary: a i)
  case Nil
  then show ?case by simp
next
  case (Cons d ds)
  then show ?case by (cases i) simp_all
qed

lemma sumsFrom_bounds: "y \<in> set (sumsFrom a ds) \<Longrightarrow> a \<le> y \<and> y \<le> a + sum_list ds"
proof (induction ds arbitrary: a)
  case Nil
  then show ?case by simp
next
  case (Cons d ds)
  then show ?case by fastforce
qed

lemma sorted_sumsFrom: "sorted (sumsFrom a ds)"
proof (induction ds arbitrary: a)
  case Nil
  then show ?case by simp
next
  case (Cons d ds)
  then show ?case by (auto dest: sumsFrom_bounds)
qed

lemma sumsFrom_mod:
  "map (\<lambda>x. x mod M) (sumsFrom (a mod M) ds) = map (\<lambda>x. x mod M) (sumsFrom a ds)"
proof (induction ds arbitrary: a)
  case Nil
  then show ?case by simp
next
  case (Cons d ds)
  have "map (\<lambda>x. x mod M) (sumsFrom (a mod M + d) ds)
      = map (\<lambda>x. x mod M) (sumsFrom ((a mod M + d) mod M) ds)"
    by (simp add: Cons.IH)
  also have "(a mod M + d) mod M = (a + d) mod M" by (simp add: mod_add_left_eq)
  also have "map (\<lambda>x. x mod M) (sumsFrom ((a + d) mod M) ds)
      = map (\<lambda>x. x mod M) (sumsFrom (a + d) ds)"
    by (simp add: Cons.IH)
  finally show ?case by (simp add: mod_add_left_eq)
qed

lemma runningSums_mod:
  "map unat (runningSums off ds) =
     map (\<lambda>x. x mod 2 ^ 32) (sumsFrom (unat off) (map unat ds))"
proof (induction ds arbitrary: off)
  case Nil
  then show ?case by simp
next
  case (Cons d ds)
  have u: "unat (off + d) = (unat off + unat d) mod 2 ^ 32"
    by (simp add: unat_word_ariths)
  have "map unat (runningSums (off + d) ds)
      = map (\<lambda>x. x mod 2 ^ 32) (sumsFrom ((unat off + unat d) mod 2 ^ 32) (map unat ds))"
    by (simp add: Cons.IH u)
  also have "\<dots> = map (\<lambda>x. x mod 2 ^ 32) (sumsFrom (unat off + unat d) (map unat ds))"
    by (rule sumsFrom_mod)
  finally show ?case by (simp add: u)
qed

lemma runningSums_exact:
  assumes "unat off + sum_list (map unat ds) < 2 ^ 32"
  shows "map unat (runningSums off ds) = sumsFrom (unat off) (map unat ds)"
proof -
  have "x mod 2 ^ 32 = x" if "x \<in> set (sumsFrom (unat off) (map unat ds))" for x
    using sumsFrom_bounds [OF that] assms by simp
  then have "map (\<lambda>x. x mod 2 ^ 32) (sumsFrom (unat off) (map unat ds))
      = sumsFrom (unat off) (map unat ds)"
    by (simp add: map_idI)
  then show ?thesis by (simp add: runningSums_mod)
qed

lemma readNameAndFlags_offset:
  "readNameAndFlags st c f = Some (f', fl, st') \<Longrightarrow> offset f' = offset f"
  by (auto simp: readNameAndFlags_def split: option.splits)

lemma readPublicFunction_offset:
  assumes "readPublicFunction st off = Some (f, fl, st')"
  shows "offset f = off + fst (readVersioned st)"
proof -
  obtain d st1 where d: "readVersioned st = (d, st1)" by (cases "readVersioned st")
  obtain c st2 where c: "readByte st1 = (c, st2)" by (cases "readByte st1")
  obtain c1 st3 where c1: "readByte st2 = (c1, st3)" by (cases "readByte st2")
  from assms d c c1 obtain f0 st0 c0 where
    "readNameAndFlags st0 c0 f0 = Some (f, fl, st')" and "offset f0 = off + d"
    by (auto simp: readPublicFunction_def Let_def newFlirtFunction_def split: if_splits)
  with d show ?thesis by (auto dest: readNameAndFlags_offset)
qed

lemma readModulePublicFunctionsLoop_offsets:
  "readModulePublicFunctionsLoop st md off = Some (md', fl, st') \<Longrightarrow>
     \<exists>fs. md' = md\<lparr>publicFunctions := publicFunctions md @ fs\<rparr>
          \<and> map offset fs = runningSums off (publicDeltas st off)"
proof (induction st md off rule: readModulePublicFunctionsLoop.induct)
  case (1 st md off)
  from "1.prems" obtain f flags st1 where r: "readPublicFunction st off = Some (f, flags, st1)"
    by (auto simp: readModulePublicFunctionsLoop.simps [of st md off] split: option.splits)
  have o: "offset f = off + fst (readVersioned st)" using r by (rule readPublicFunction_offset)
  let ?md1 = "md\<lparr>publicFunctions := publicFunctions md @ [f]\<rparr>"
  show ?case
  proof (cases "flags AND IDASIG_PARSE_MORE_PUBLIC_NAMES \<noteq> 0")
    case True
    with "1.prems" r have
      "readModulePublicFunctionsLoop st1 ?md1 (offset f) = Some (md', fl, st')"
      by (simp add: readModulePublicFunctionsLoop.simps [of st md off])
    from "1.IH" [OF r refl refl refl True this] obtain fs where
      fs: "md' = ?md1\<lparr>publicFunctions := publicFunctions ?md1 @ fs\<rparr>"
        "map offset fs = runningSums (offset f) (publicDeltas st1 (offset f))" by blast
    have "publicDeltas st off = fst (readVersioned st) # publicDeltas st1 (offset f)"
      using r True by (simp add: publicDeltas.simps [of st off])
    with fs o have "md' = md\<lparr>publicFunctions := publicFunctions md @ (f # fs)\<rparr>
        \<and> map offset (f # fs) = runningSums off (publicDeltas st off)"
      by simp
    then show ?thesis by blast
  next
    case False
    with "1.prems" r have "md' = md\<lparr>publicFunctions := publicFunctions md @ [f]\<rparr>"
      by (simp add: readModulePublicFunctionsLoop.simps [of st md off])
    moreover have "publicDeltas st off = [fst (readVersioned st)]"
      using r False by (simp add: publicDeltas.simps [of st off])
    ultimately have "md' = md\<lparr>publicFunctions := publicFunctions md @ [f]\<rparr>
        \<and> map offset [f] = runningSums off (publicDeltas st off)"
      using o by simp
    then show ?thesis by blast
  qed
qed

lemma parseModule_offsets:
  assumes "parseModule st path cl crc = Some (m, fl, st')"
  shows "map offset (publicFunctions m) =
           runningSums 0 (publicDeltas (snd (readVersioned st)) 0)"
proof -
  from assms obtain len st1 md2 st2 md3 st3 where
    a: "readVersioned st = (len, st1)"
    and b: "readModulePublicFunctions st1
       (newFlirtModule\<lparr>patternPath := path, crcLength := ucast cl, crc16 := ucast crc,
          modLength := len\<rparr>) = Some (md2, fl, st2)"
    and c: "(if fl AND IDASIG_PARSE_READ_TAIL_BYTES \<noteq> 0
      then readModuleTailBytes st2 md2 else Some (md2, st2)) = Some (md3, st3)"
    and d: "(if fl AND IDASIG_PARSE_READ_REFERENCED_FUNCTIONS \<noteq> 0
      then readModuleReferencedFunctions st3 md3 else Some (md3, st3)) = Some (m, st')"
    by (rule parseModule_steps)
  from b have "map offset (publicFunctions md2) = runningSums 0 (publicDeltas st1 0)"
    by (auto simp: readModulePublicFunctions_def newFlirtModule_def
        dest!: readModulePublicFunctionsLoop_offsets)
  moreover from c have "publicFunctions md3 = publicFunctions md2"
    by (auto split: if_splits dest!: readModuleTailBytes_count)
  moreover from d have "publicFunctions m = publicFunctions md3"
    by (auto split: if_splits dest!: readModuleReferencedFunctions_count)
  ultimately show ?thesis using a by simp
qed

text \<open>
  C5 as the code has it. A module of a successful parse was returned by a round of the
  inner loop of \<open>parseLeaf\<close>; for every such round, with the deltas its function loop
  read, the module has one function per delta, the offset of function \<open>i\<close> is the sum
  of the first \<open>i + 1\<close> deltas modulo \<open>2^32\<close> (the running offset is a \<open>quint32\<close> and
  is not reset), and when the deltas sum to less than \<open>2^32\<close> the offsets are these sums
  and do not decrease.
\<close>

theorem cumulative_offsets:
  assumes "parse have_zlib decompressZlib data = Some r" and "success r"
    and "m \<in> set (modules r)"
  shows "(\<exists>st cl crc fl st'.
            version st = uint (data ! 6)
            \<and> parseModule st (patternPath m) cl crc = Some (m, fl, st'))
    \<and> (\<forall>st cl crc fl st'.
          parseModule st (patternPath m) cl crc = Some (m, fl, st') \<longrightarrow>
            length (publicDeltas (snd (readVersioned st)) 0) = length (publicFunctions m)
            \<and> (\<forall>i<length (publicFunctions m).
                  unat (offset (publicFunctions m ! i)) =
                    sum_list (take (Suc i) (map unat (publicDeltas (snd (readVersioned st)) 0)))
                      mod 2 ^ 32)
            \<and> (sum_list (map unat (publicDeltas (snd (readVersioned st)) 0)) < 2 ^ 32 \<longrightarrow>
                  sorted (map (\<lambda>f. unat (offset f)) (publicFunctions m))
                  \<and> (\<forall>i<length (publicFunctions m).
                        unat (offset (publicFunctions m ! i)) =
                          sum_list (take (Suc i)
                            (map unat (publicDeltas (snd (readVersioned st)) 0))))))"
proof (intro conjI allI impI)
  show "\<exists>st cl crc fl st'.
      version st = uint (data ! 6) \<and> parseModule st (patternPath m) cl crc = Some (m, fl, st')"
    using assms(1,3) by (rule emitted_module)
next
  fix st cl crc fl st'
  assume p: "parseModule st (patternPath m) cl crc = Some (m, fl, st')"
  define ds where "ds = publicDeltas (snd (readVersioned st)) 0"
  have o: "map offset (publicFunctions m) = runningSums 0 ds"
    unfolding ds_def using p by (rule parseModule_offsets)
  then have "length (map offset (publicFunctions m)) = length (runningSums 0 ds)" by simp
  then have len: "length ds = length (publicFunctions m)" by simp
  then show "length (publicDeltas (snd (readVersioned st)) 0) = length (publicFunctions m)"
    by (simp add: ds_def)
  have u: "map (\<lambda>f. unat (offset f)) (publicFunctions m) =
      map (\<lambda>x. x mod 2 ^ 32) (sumsFrom 0 (map unat ds))"
    using runningSums_mod [of 0 ds] o [symmetric] by (simp add: comp_def)
  { fix i assume i: "i < length (publicFunctions m)"
    then have "unat (offset (publicFunctions m ! i)) =
        map (\<lambda>f. unat (offset f)) (publicFunctions m) ! i" by simp
    also have "\<dots> = sumsFrom 0 (map unat ds) ! i mod 2 ^ 32"
      unfolding u using i len by simp
    also have "\<dots> = sum_list (take (Suc i) (map unat ds)) mod 2 ^ 32"
      using i len by (simp add: sumsFrom_nth)
    finally show "unat (offset (publicFunctions m ! i)) =
        sum_list (take (Suc i) (map unat (publicDeltas (snd (readVersioned st)) 0))) mod 2 ^ 32"
      by (simp add: ds_def) }
  assume "sum_list (map unat (publicDeltas (snd (readVersioned st)) 0)) < 2 ^ 32"
  then have "unat (0 :: 32 word) + sum_list (map unat ds) < 2 ^ 32" by (simp add: ds_def)
  then have "map unat (runningSums 0 ds) = sumsFrom (unat (0 :: 32 word)) (map unat ds)"
    by (rule runningSums_exact)
  with o have e: "map (\<lambda>f. unat (offset f)) (publicFunctions m) = sumsFrom 0 (map unat ds)"
    by (simp add: comp_def flip: o)
  show "sorted (map (\<lambda>f. unat (offset f)) (publicFunctions m))"
    unfolding e by (rule sorted_sumsFrom)
  fix i assume i: "i < length (publicFunctions m)"
  then have "unat (offset (publicFunctions m ! i)) =
      map (\<lambda>f. unat (offset f)) (publicFunctions m) ! i" by simp
  also have "\<dots> = sum_list (take (Suc i) (map unat ds))"
    unfolding e using i len by (simp add: sumsFrom_nth)
  finally show "unat (offset (publicFunctions m ! i)) =
      sum_list (take (Suc i) (map unat (publicDeltas (snd (readVersioned st)) 0)))"
    by (simp add: ds_def)
qed

lemma parse_sigWrap:
  "parse False noDecompress sigWrap =
     Some \<lparr>success = True, errorMessage = [], libraryName = [],
       header = newFlirtHeader\<lparr>hdr_version := 9, ctype := replicate 12 0\<rparr>,
       modules = [sigWrapModule]\<rparr>"
  by code_simp

lemma publicDeltas_sigWrap:
  "publicDeltas \<lparr>body = sigWrap, pos = 48, version = 9, eof = False, err = False\<rparr> 0 =
     [0xffffffff, 1]"
  by code_simp

lemma publicDeltas_sigTree:
  "publicDeltas
     (snd (readVersioned \<lparr>body = sigTree, pos = 51, version = 5, eof = False, err = False\<rparr>))
     0 = [8, 5]"
  by code_simp

theorem cumulative_offsets_counterexample:
  "map_option success (parse False noDecompress sigWrap) = Some True
   \<and> map_option modules (parse False noDecompress sigWrap) = Some [sigWrapModule]
   \<and> publicDeltas \<lparr>body = sigWrap, pos = 48, version = 9, eof = False, err = False\<rparr> 0 =
       [0xffffffff, 1]
   \<and> map offset (publicFunctions sigWrapModule) = [0xffffffff, 0]
   \<and> \<not> sorted (map unat (map offset (publicFunctions sigWrapModule)))
   \<and> unat (offset (publicFunctions sigWrapModule ! 1))
       \<noteq> unat (0xffffffff :: 32 word) + unat (1 :: 32 word)"
  by (simp add: parse_sigWrap publicDeltas_sigWrap) (simp add: sigWrapModule_def)

theorem cumulative_offsets_witness:
  "(\<exists>st cl crc fl st'.
      version st = 5 \<and> parseModule st (patternPath sigTreeModule) cl crc
        = Some (sigTreeModule, fl, st'))
   \<and> sorted (map (\<lambda>f. unat (offset f)) (publicFunctions sigTreeModule))
   \<and> unat (offset (publicFunctions sigTreeModule ! 1)) = sum_list (take 2 [8, 5])"
proof -
  have m: "sigTreeModule \<in> set (modules \<lparr>success = True, errorMessage = [], libraryName = [],
       header = newFlirtHeader\<lparr>hdr_version := 5, ctype := replicate 12 0\<rparr>,
       modules = [sigTreeModule]\<rparr>)"
    by simp
  have v: "uint (sigTree ! 6) = 5" by (simp add: sigTree_def header5_def IDASGN_def)
  note t = cumulative_offsets [OF parse_sigTree _ m]
  from t v have 1: "\<exists>st cl crc fl st'.
      version st = 5 \<and> parseModule st (patternPath sigTreeModule) cl crc
        = Some (sigTreeModule, fl, st')"
    by simp
  have l: "length (publicFunctions sigTreeModule) = 2" by (simp add: sigTreeModule_def)
  from t parseModule_sigTree publicDeltas_sigTree
  have "(sum_list (map unat [8, 5 :: 32 word]) < 2 ^ 32 \<longrightarrow>
          sorted (map (\<lambda>f. unat (offset f)) (publicFunctions sigTreeModule))
          \<and> (\<forall>i<length (publicFunctions sigTreeModule).
                unat (offset (publicFunctions sigTreeModule ! i)) =
                  sum_list (take (Suc i) (map unat [8, 5 :: 32 word]))))"
    by fastforce
  then have "sorted (map (\<lambda>f. unat (offset f)) (publicFunctions sigTreeModule))
      \<and> unat (offset (publicFunctions sigTreeModule ! 1)) = sum_list (take 2 [8, 5])"
    using l by simp
  with 1 show ?thesis by blast
qed

end
